theory Spec2Isabelle
  imports Complex_Main "HOL-Library.Word"
begin

section \<open>JavaScript strings and values\<close>

text \<open>
  A JavaScript string is a sequence of UTF-16 code units. Regular expressions without
  the \<open>u\<close> flag and \<open>String.prototype.replace\<close> work on code units, so a string is
  a list of 16-bit words. \<open>js\<close> embeds an ASCII literal.
\<close>

type_synonym cu = "16 word"
type_synonym jsstring = "cu list"

definition js :: "string \<Rightarrow> jsstring" where
  "js s = map (\<lambda>c. of_nat (of_char c)) s"

definition is_digit :: "cu \<Rightarrow> bool" where
  "is_digit c = (0x30 \<le> c \<and> c \<le> 0x39)"

definition is_upper :: "cu \<Rightarrow> bool" where
  "is_upper c = (0x41 \<le> c \<and> c \<le> 0x5A)"

definition is_lower :: "cu \<Rightarrow> bool" where
  "is_lower c = (0x61 \<le> c \<and> c \<le> 0x7A)"

definition is_ascii :: "cu \<Rightarrow> bool" where
  "is_ascii c = (c < 0x80)"

definition ascii_lower :: "cu \<Rightarrow> cu" where
  "ascii_lower c = (if is_upper c then c + 0x20 else c)"

text \<open>
  \<open>String.prototype.toLowerCase\<close>. On a string of ASCII code units it maps \<open>A\<close>..\<open>Z\<close>
  to \<open>a\<close>..\<open>z\<close> and keeps the rest. On any other string it follows the Unicode
  case tables of the engine, which are not part of the repository: they are the
  parameter \<open>unicode_lower\<close>.
\<close>

definition toLowerCase :: "(jsstring \<Rightarrow> jsstring) \<Rightarrow> jsstring \<Rightarrow> jsstring" where
  "toLowerCase unicode_lower s =
     (if list_all is_ascii s then map ascii_lower s else unicode_lower s)"

text \<open>
  The values \<open>jsyaml.load\<close> can hand back, and that the fields of \<open>metadata\<close> can
  therefore hold: \<open>undefined\<close>, \<open>null\<close>, booleans, numbers (finite ones as
  rationals, \<open>NaN\<close> and the two infinities apart), strings, plain objects (their own
  properties in insertion order), arrays and \<open>Date\<close> objects (YAML timestamps).
\<close>

datatype jsval =
    Undefined
  | Null
  | Bool bool
  | Num rat
  | NaN
  | Infinity bool
  | Str jsstring
  | Obj "(jsstring \<times> jsval) list"
  | Arr "jsval list"
  | DateObj rat

datatype exn = TypeError | YAMLException | Error jsstring

text \<open>
  The object \<open>metadata\<close>. Its fields hold whatever \<open>jsyaml.load\<close> found under the
  keys, so they are JavaScript values; the empty object \<open>{}\<close> of the initial state
  reads as \<open>undefined\<close> in every field.
\<close>

record document_metadata =
  title :: jsval
  author :: jsval
  date :: jsval

definition empty_metadata :: document_metadata where
  "empty_metadata = \<lparr>title = Undefined, author = Undefined, date = Undefined\<rparr>"

text \<open>Truthiness, and \<open>a || b\<close> on values.\<close>

fun truthy :: "jsval \<Rightarrow> bool" where
  "truthy Undefined = False"
| "truthy Null = False"
| "truthy (Bool b) = b"
| "truthy (Num r) = (r \<noteq> 0)"
| "truthy NaN = False"
| "truthy (Infinity b) = True"
| "truthy (Str s) = (s \<noteq> [])"
| "truthy (Obj ps) = True"
| "truthy (Arr vs) = True"
| "truthy (DateObj t) = True"

definition js_or :: "jsval \<Rightarrow> jsval \<Rightarrow> jsval" where
  "js_or a b = (if truthy a then a else b)"

text \<open>
  Reading the property \<open>k\<close> of a value, for the keys the program reads from parsed
  YAML (\<open>title\<close>, \<open>author\<close>, \<open>date\<close>), which no prototype defines: on \<open>undefined\<close>
  and \<open>null\<close> the read throws a \<open>TypeError\<close>, on an object it finds the own
  property or \<open>undefined\<close>, on every other value it finds \<open>undefined\<close>.
\<close>

fun get_prop :: "jsval \<Rightarrow> jsstring \<Rightarrow> exn + jsval" where
  "get_prop Undefined k = Inl TypeError"
| "get_prop Null k = Inl TypeError"
| "get_prop (Obj ps) k = Inr (case map_of ps k of Some v \<Rightarrow> v | None \<Rightarrow> Undefined)"
| "get_prop v k = Inr Undefined"

text \<open>
  String conversion in a template literal: a string is itself; the conversion of the
  other values (number formatting, \<open>[object Object]\<close>, dates) is the engine's and is
  the parameter \<open>str_of\<close>.
\<close>

definition ToString :: "(jsval \<Rightarrow> jsstring) \<Rightarrow> jsval \<Rightarrow> jsstring" where
  "ToString str_of v = (case v of Str s \<Rightarrow> s | _ \<Rightarrow> str_of v)"

section \<open>generatePDF: slicing the raster into pages\<close>

text \<open>
  A jsPDF document is the list of its pages; a page is the list of the images placed on
  it, each with the vertical offset and the height \<open>addImage\<close> was given (in mm).
  \<open>new jsPDF\<close> starts with one empty page, \<open>addImage\<close> draws on the last page and
  \<open>addPage\<close> appends an empty one.
\<close>

record placement =
  pos_y :: rat
  img_h :: rat

type_synonym pdf = "placement list list"

definition new_jsPDF :: pdf where
  "new_jsPDF = [[]]"

definition addImage :: "rat \<Rightarrow> rat \<Rightarrow> pdf \<Rightarrow> pdf" where
  "addImage y h d = butlast d @ [last d @ [\<lparr>pos_y = y, img_h = h\<rparr>]]"

definition addPage :: "pdf \<Rightarrow> pdf" where
  "addPage d = d @ [[]]"

text \<open>
  \<open>imgHeight = (canvas.height * imgWidth) / canvas.width\<close> with \<open>imgWidth = 210\<close>. The
  source computes in IEEE doubles; the model computes in rationals, which agrees with
  the doubles whenever the quotient and the later differences are integers below
  \<open>2^53\<close>, as they are for a height that is a whole multiple of 297. The canvas of
  the 800px container is never of width 0.
\<close>

definition imgWidth :: rat where
  "imgWidth = 210"

definition imgHeight :: "nat \<Rightarrow> nat \<Rightarrow> rat" where
  "imgHeight canvas_width canvas_height = (of_nat canvas_height * imgWidth) / of_nat canvas_width"

text \<open>
  The loop of lines 324 to 329:
  \<^verbatim>\<open>while (heightLeft >= 0) { position = heightLeft - imgHeight; pdf.addPage();
     pdf.addImage(imgData, 'PNG', 0, position, imgWidth, imgHeight); heightLeft -= 297; }\<close>
\<close>

function page_loop :: "rat \<Rightarrow> rat \<Rightarrow> pdf \<Rightarrow> pdf" where
  "page_loop heightLeft h d =
     (if heightLeft \<ge> 0
      then page_loop (heightLeft - 297) h (addImage (heightLeft - h) h (addPage d))
      else d)"
  by pat_completeness auto
termination
proof (relation "measure (\<lambda>(heightLeft, h, d). nat (\<lfloor>heightLeft\<rfloor> + 297))")
  show "wf (measure (\<lambda>(heightLeft :: rat, h :: rat, d :: pdf). nat (\<lfloor>heightLeft\<rfloor> + 297)))"
    by simp
next
  fix heightLeft h :: rat and d :: pdf
  assume "0 \<le> heightLeft"
  then have f: "0 \<le> \<lfloor>heightLeft\<rfloor>"
    by simp
  have g: "\<lfloor>heightLeft - 297\<rfloor> = \<lfloor>heightLeft\<rfloor> - 297"
    by simp
  from f show "((heightLeft - 297, h, addImage (heightLeft - h) h (addPage d)), heightLeft, h, d)
      \<in> measure (\<lambda>(heightLeft, h, d). nat (\<lfloor>heightLeft\<rfloor> + 297))"
    unfolding in_measure prod.case g by linarith
qed

declare page_loop.simps [simp del]

text \<open>Lines 316 to 329: the first image on the first page, then the loop.\<close>

definition compose_pages :: "rat \<Rightarrow> pdf" where
  "compose_pages h = page_loop (h - 297) h (addImage 0 h new_jsPDF)"

definition generatePDF_pages :: "nat \<Rightarrow> nat \<Rightarrow> pdf" where
  "generatePDF_pages canvas_width canvas_height =
     compose_pages (imgHeight canvas_width canvas_height)"

section \<open>Output file names\<close>

text \<open>
  Lines 331 and 407: \<open>metadata.title.replace(/[^a-z0-9]/gi, '_').toLowerCase() + ext\<close>.
  The regular expression is one negated character class with the flags \<open>g\<close> and \<open>i\<close>
  and no \<open>u\<close>: a code unit is in the class \<open>[a-z0-9]\<close> under \<open>i\<close> exactly when it is
  an ASCII letter or digit (the canonicalisation of the specification never maps a
  code unit of 128 or more to an ASCII one), and the global replace visits every code
  unit once. Called on a value that is not a string, \<open>.replace\<close> is not a function and
  the call throws a \<open>TypeError\<close>.
\<close>

definition in_class_az09_i :: "cu \<Rightarrow> bool" where
  "in_class_az09_i c = (is_lower c \<or> is_upper c \<or> is_digit c)"

definition replace_non_alnum :: "jsstring \<Rightarrow> jsstring" where
  "replace_non_alnum s = concat (map (\<lambda>c. if in_class_az09_i c then [c] else js ''_'') s)"

definition pdf_filename :: "(jsstring \<Rightarrow> jsstring) \<Rightarrow> jsval \<Rightarrow> exn + jsstring" where
  "pdf_filename unicode_lower t =
     (case t of
        Str s \<Rightarrow> Inr (toLowerCase unicode_lower (replace_non_alnum s) @ js ''.pdf'')
      | _ \<Rightarrow> Inl TypeError)"

definition docx_filename :: "(jsstring \<Rightarrow> jsstring) \<Rightarrow> jsval \<Rightarrow> exn + jsstring" where
  "docx_filename unicode_lower t =
     (case t of
        Str s \<Rightarrow> Inr (toLowerCase unicode_lower (replace_non_alnum s) @ js ''.docx'')
      | _ \<Rightarrow> Inl TypeError)"

text \<open>
  The rule as the specification words it: the characters that are not alphanumeric are
  removed, the rest is lowercased.
\<close>

definition spec_slug :: "jsstring \<Rightarrow> jsstring" where
  "spec_slug s = map ascii_lower (filter in_class_az09_i s)"

section \<open>Regular expressions\<close>

text \<open>
  The regular expressions of the program use literal characters, the classes \<open>\s\<close> and
  \<open>[\s\S]\<close>, the greedy star \<open>*\<close> and the lazy star \<open>*?\<close> over one class, the
  assertions \<open>^\<close> and \<open>$\<close> (no \<open>m\<close> flag: start and end of the input), capturing
  groups, and one alternation of literal strings. A pattern is the list of its items.
\<close>

definition is_space :: "cu \<Rightarrow> bool" where
  "is_space c =
     (c \<in> {0x09, 0x0A, 0x0B, 0x0C, 0x0D, 0x20, 0xA0, 0x1680, 0x2028, 0x2029, 0x202F, 0x205F,
            0x3000, 0xFEFF}
      \<or> (0x2000 \<le> c \<and> c \<le> 0x200A))"

datatype cclass = Lit cu | Space | AnyChar

fun cmatch :: "cclass \<Rightarrow> cu \<Rightarrow> bool" where
  "cmatch (Lit l) c = (c = l)"
| "cmatch Space c = is_space c"
| "cmatch AnyChar c = True"

datatype item =
    Bol
  | Eol
  | Ch cclass
  | Star bool cclass
  | GroupOpen
  | GroupClose
  | Alt "jsstring list"

type_synonym captures = "(nat \<times> nat) list"

fun isize :: "item \<Rightarrow> nat" where
  "isize (Alt as) = Suc (length as)"
| "isize _ = 1"

text \<open>
  The backtracking matcher of ECMAScript, for these items. \<open>rmatch p seen s os cs\<close> runs
  the pattern \<open>p\<close> at the current position: \<open>seen\<close> is the input before the position
  (reversed), \<open>s\<close> the input from it on, \<open>os\<close> the start positions of the groups that
  are open, \<open>cs\<close> the groups captured so far as (start, end). The result is the end
  of the match and the captures, or \<open>None\<close> when every alternative has failed. The
  greedy star \<open>Star True\<close> first tries one more character and falls back to the rest
  of the pattern; the lazy star \<open>Star False\<close> first tries the rest of the pattern and
  falls back to one more character; an alternation tries its strings from left to
  right. A closing parenthesis with no group open cannot be written in a regular
  expression literal; the matcher passes over it.
\<close>

function rmatch :: "item list \<Rightarrow> jsstring \<Rightarrow> jsstring \<Rightarrow> nat list \<Rightarrow> captures
    \<Rightarrow> (nat \<times> captures) option" where
  "rmatch [] seen s os cs = Some (length seen, cs)"
| "rmatch (Bol # p) seen s os cs = (if seen = [] then rmatch p seen s os cs else None)"
| "rmatch (Eol # p) seen s os cs = (if s = [] then rmatch p seen s os cs else None)"
| "rmatch (Ch k # p) seen s os cs =
     (case s of
        [] \<Rightarrow> None
      | x # xs \<Rightarrow> if cmatch k x then rmatch p (x # seen) xs os cs else None)"
| "rmatch (Star True k # p) seen s os cs =
     (case s of
        [] \<Rightarrow> rmatch p seen s os cs
      | x # xs \<Rightarrow>
          if cmatch k x
          then (case rmatch (Star True k # p) (x # seen) xs os cs of
                  Some r \<Rightarrow> Some r
                | None \<Rightarrow> rmatch p seen s os cs)
          else rmatch p seen s os cs)"
| "rmatch (Star False k # p) seen s os cs =
     (case rmatch p seen s os cs of
        Some r \<Rightarrow> Some r
      | None \<Rightarrow>
          (case s of
             [] \<Rightarrow> None
           | x # xs \<Rightarrow>
               if cmatch k x then rmatch (Star False k # p) (x # seen) xs os cs else None))"
| "rmatch (GroupOpen # p) seen s os cs = rmatch p seen s (length seen # os) cs"
| "rmatch (GroupClose # p) seen s os cs =
     (case os of
        [] \<Rightarrow> rmatch p seen s os cs
      | b # os' \<Rightarrow> rmatch p seen s os' (cs @ [(b, length seen)]))"
| "rmatch (Alt [] # p) seen s os cs = None"
| "rmatch (Alt (a # as) # p) seen s os cs =
     (if take (length a) s = a
      then (case rmatch p (rev a @ seen) (drop (length a) s) os cs of
              Some r \<Rightarrow> Some r
            | None \<Rightarrow> rmatch (Alt as # p) seen s os cs)
      else rmatch (Alt as # p) seen s os cs)"
  by pat_completeness auto
termination
  by (relation "measures [\<lambda>(p, seen, s, os, cs). length s,
                          \<lambda>(p, seen, s, os, cs). sum_list (map isize p)]") auto

text \<open>
  The equations of the two stars and of the alternation rewrite a call of \<open>rmatch\<close> on
  any input into a term that calls \<open>rmatch\<close> with the same pattern again: they are
  unfolded by hand.
\<close>

declare rmatch.simps(5,6,10) [simp del]

text \<open>
  \<open>RegExpBuiltinExec\<close> for a regular expression that is neither global nor sticky:
  the matcher is tried at the start indices 0, 1, ... up to the length of the input,
  and the first success is the match: (index, end, captures).
\<close>

type_synonym rx_match = "nat \<times> nat \<times> captures"

fun exec_from :: "item list \<Rightarrow> jsstring \<Rightarrow> jsstring \<Rightarrow> rx_match option" where
  "exec_from p seen [] =
     (case rmatch p seen [] [] [] of Some (e, cs) \<Rightarrow> Some (length seen, e, cs) | None \<Rightarrow> None)"
| "exec_from p seen (x # xs) =
     (case rmatch p seen (x # xs) [] [] of
        Some (e, cs) \<Rightarrow> Some (length seen, e, cs)
      | None \<Rightarrow> exec_from p (x # seen) xs)"

definition exec :: "item list \<Rightarrow> jsstring \<Rightarrow> rx_match option" where
  "exec p s = exec_from p [] s"

definition slice :: "jsstring \<Rightarrow> nat \<Rightarrow> nat \<Rightarrow> jsstring" where
  "slice s a b = take (b - a) (drop a s)"

text \<open>
  \<open>m[n]\<close> of a match array for \<open>n \<ge> 1\<close>: the text of the \<open>n\<close>-th group, \<open>undefined\<close>
  when there is none.
\<close>

definition match_group :: "jsstring \<Rightarrow> rx_match \<Rightarrow> nat \<Rightarrow> jsval" where
  "match_group s m n =
     (case m of (i, e, cs) \<Rightarrow>
        if 1 \<le> n \<and> n \<le> length cs then Str (slice s (fst (cs ! (n - 1))) (snd (cs ! (n - 1))))
        else Undefined)"

text \<open>\<open>s.replace(re, '')\<close> for such a regular expression: the first match is cut out.\<close>

definition replace_first :: "item list \<Rightarrow> jsstring \<Rightarrow> jsstring" where
  "replace_first p s = (case exec p s of None \<Rightarrow> s | Some (i, e, cs) \<Rightarrow> take i s @ drop e s)"

definition lit :: "string \<Rightarrow> item list" where
  "lit s = map (\<lambda>c. Ch (Lit c)) (js s)"

section \<open>extractMetadata and removeFrontMatter\<close>

text \<open>Line 157: \<^verbatim>\<open>/^---\s*\n([\s\S]*?)\n---\s*\n/\<close>.\<close>

definition frontMatterRegex_extract :: "item list" where
  "frontMatterRegex_extract =
     [Bol] @ lit ''---'' @ [Star True Space, Ch (Lit 0x0A),
       GroupOpen, Star False AnyChar, GroupClose,
       Ch (Lit 0x0A)] @ lit ''---'' @ [Star True Space, Ch (Lit 0x0A)]"

text \<open>Line 182: \<^verbatim>\<open>/^---\s*\n[\s\S]*?\n---\s*\n/\<close>.\<close>

definition frontMatterRegex_remove :: "item list" where
  "frontMatterRegex_remove =
     [Bol] @ lit ''---'' @ [Star True Space, Ch (Lit 0x0A),
       Star False AnyChar,
       Ch (Lit 0x0A)] @ lit ''---'' @ [Star True Space, Ch (Lit 0x0A)]"

text \<open>Line 174: \<^verbatim>\<open>/\.(md|markdown|txt)$/\<close>.\<close>

definition extensionRegex :: "item list" where
  "extensionRegex =
     [Ch (Lit 0x2E), GroupOpen, Alt [js ''md'', js ''markdown'', js ''txt''], GroupClose, Eol]"

text \<open>
  A \<open>File\<close>: its name, its size in bytes, and what \<open>FileReader.readAsText\<close> yields for
  it (the text, or the error of \<open>reader.onerror\<close>).
\<close>

record js_file =
  file_name :: jsstring
  file_size :: nat
  file_text :: "exn + jsstring"

text \<open>The placeholder title of lines 164 and 174, a word of eight Cyrillic letters.\<close>

definition placeholder :: jsstring where
  "placeholder = [0x414, 0x43E, 0x43A, 0x443, 0x43C, 0x435, 0x43D, 0x442]"

text \<open>
  Lines 173 to 177, the defaults. \<open>today\<close> is the string
  \<open>new Date().toLocaleDateString('ru-RU')\<close> gives at the time of the call.
\<close>

definition default_metadata :: "jsstring \<Rightarrow> js_file option \<Rightarrow> document_metadata" where
  "default_metadata today selectedFile =
     \<lparr>title = Str (case selectedFile of
                     Some f \<Rightarrow> replace_first extensionRegex (file_name f)
                   | None \<Rightarrow> placeholder),
      author = Str [],
      date = Str today\<rparr>"

text \<open>
  Lines 162 to 167, the body of the \<open>try\<close>: \<open>jsyaml.load\<close> (the parameter \<open>yaml_load\<close>,
  which may throw) and the three property reads, each of which throws on \<open>undefined\<close>
  and \<open>null\<close>.
\<close>

definition try_front_matter :: "(jsval \<Rightarrow> exn + jsval) \<Rightarrow> jsstring \<Rightarrow> jsval
    \<Rightarrow> exn + document_metadata" where
  "try_front_matter yaml_load today m1 =
     (case yaml_load m1 of
        Inl e \<Rightarrow> Inl e
      | Inr yamlData \<Rightarrow>
          (case get_prop yamlData (js ''title'') of
             Inl e \<Rightarrow> Inl e
           | Inr t \<Rightarrow>
               (case get_prop yamlData (js ''author'') of
                  Inl e \<Rightarrow> Inl e
                | Inr a \<Rightarrow>
                    (case get_prop yamlData (js ''date'') of
                       Inl e \<Rightarrow> Inl e
                     | Inr d \<Rightarrow>
                         Inr \<lparr>title = js_or t (Str placeholder),
                              author = js_or a (Str []),
                              date = js_or d (Str today)\<rparr>))))"

text \<open>
  Lines 156 to 178. The \<open>catch\<close> only logs a warning, after which control reaches the
  defaults. The result is a sum so that a throw that escaped would show as \<open>Inl\<close>.
\<close>

definition extractMetadata :: "(jsval \<Rightarrow> exn + jsval) \<Rightarrow> jsstring \<Rightarrow> js_file option \<Rightarrow> jsstring
    \<Rightarrow> exn + document_metadata" where
  "extractMetadata yaml_load today selectedFile content =
     (case exec frontMatterRegex_extract content of
        Some m \<Rightarrow>
          (case try_front_matter yaml_load today (match_group content m 1) of
             Inr md \<Rightarrow> Inr md
           | Inl e \<Rightarrow> Inr (default_metadata today selectedFile))
      | None \<Rightarrow> Inr (default_metadata today selectedFile))"

text \<open>Lines 181 to 184.\<close>

definition removeFrontMatter :: "jsstring \<Rightarrow> jsstring" where
  "removeFrontMatter content = replace_first frontMatterRegex_remove content"

section \<open>The parsed HTML fragment\<close>

text \<open>
  \<open>parsedHtml\<close> is a string of HTML; the program reads and changes it only through the
  browser's DOM (\<open>tempDiv.innerHTML = parsedHtml\<close>, \<open>querySelectorAll\<close>, \<open>textContent\<close>,
  \<open>replaceWith\<close>, \<open>tempDiv.innerHTML\<close>). The fragment is therefore modelled by the
  child nodes of \<open>tempDiv\<close> that the browser builds from the string: a node is a text
  node or an element with its tag name in lower case (\<open>tagName.toLowerCase()\<close>), its
  class list and its child nodes.
\<close>

datatype dom = Text jsstring | Elem jsstring "jsstring list" "dom list"

fun textContent :: "dom \<Rightarrow> jsstring" where
  "textContent (Text t) = t"
| "textContent (Elem tg cl ks) = concat (map textContent ks)"

text \<open>
  A node below \<open>tempDiv\<close> is addressed by its path: the indices among the child nodes
  from \<open>tempDiv\<close> down. \<open>walk n\<close> lists the elements of the subtree of \<open>n\<close> in document
  order (an element before its descendants), each with its path from \<open>n\<close>;
  \<open>walk_list i ks\<close> does so for the child nodes \<open>ks\<close>, the first of which has index
  \<open>i\<close>.
\<close>

type_synonym path = "nat list"

fun walk :: "dom \<Rightarrow> (path \<times> dom) list"
  and walk_list :: "nat \<Rightarrow> dom list \<Rightarrow> (path \<times> dom) list" where
  "walk (Text t) = []"
| "walk (Elem tg cl ks) = ([], Elem tg cl ks) # walk_list 0 ks"
| "walk_list i [] = []"
| "walk_list i (k # ks) = map (\<lambda>(p, n). (i # p, n)) (walk k) @ walk_list (Suc i) ks"

text \<open>
  \<open>tempDiv.querySelectorAll(sel)\<close>: the descendants of \<open>tempDiv\<close> that match, in
  document order, as a static list.
\<close>

definition querySelectorAll :: "(dom \<Rightarrow> bool) \<Rightarrow> dom list \<Rightarrow> (path \<times> dom) list" where
  "querySelectorAll sel kids = filter (\<lambda>(p, n). sel n) (walk_list 0 kids)"

text \<open>The selector \<open>code.language-mermaid\<close>.\<close>

fun sel_mermaid :: "dom \<Rightarrow> bool" where
  "sel_mermaid (Text t) = False"
| "sel_mermaid (Elem tg cl ks) = (tg = js ''code'' \<and> js ''language-mermaid'' \<in> set cl)"

text \<open>The selector \<open>h1, h2, h3, h4, h5, h6, p, pre, ul, ol\<close>.\<close>

fun sel_blocks :: "dom \<Rightarrow> bool" where
  "sel_blocks (Text t) = False"
| "sel_blocks (Elem tg cl ks) =
     (tg \<in> set (map js [''h1'', ''h2'', ''h3'', ''h4'', ''h5'', ''h6'', ''p'', ''pre'', ''ul'', ''ol'']))"

text \<open>The node at a path below \<open>tempDiv\<close>, if there is one.\<close>

fun node_at :: "dom list \<Rightarrow> path \<Rightarrow> dom option" where
  "node_at ks [] = None"
| "node_at ks [i] = (if i < length ks then Some (ks ! i) else None)"
| "node_at ks (i # j # p) =
     (if i < length ks
      then (case ks ! i of Elem tg cl sub \<Rightarrow> node_at sub (j # p) | Text t \<Rightarrow> None)
      else None)"

text \<open>
  The child nodes of \<open>tempDiv\<close> after the node at a path has been replaced by \<open>new\<close>.
  The empty path is \<open>tempDiv\<close> itself, which has no parent: \<open>replaceWith\<close> on a node
  without a parent does nothing.
\<close>

fun replace_at :: "path \<Rightarrow> dom \<Rightarrow> dom list \<Rightarrow> dom list" where
  "replace_at [] new ks = ks"
| "replace_at [i] new ks = (if i < length ks then ks[i := new] else ks)"
| "replace_at (i # j # p) new ks =
     (if i < length ks
      then (case ks ! i of
              Elem tg cl sub \<Rightarrow> ks[i := Elem tg cl (replace_at (j # p) new sub)]
            | Text t \<Rightarrow> ks)
      else ks)"

definition is_prefix :: "path \<Rightarrow> path \<Rightarrow> bool" where
  "is_prefix a b = (take (length a) b = a)"

section \<open>processMermaidDiagrams\<close>

text \<open>
  Lines 193 to 206. The list \<open>mermaidBlocks\<close> is static: it holds the code elements of
  the fragment as it was parsed, each with its path. \<open>mermaid.render\<close> is the parameter
  \<open>render\<close>: it gets the index \<open>i\<close> (of the id \<open>mermaid-i\<close>) and the text of the block
  and yields the nodes of the SVG markup or rejects. A rejection is caught and logged,
  and the loop goes on.

  The state of the loop is the tree below \<open>tempDiv\<close> and the paths \<open>gone\<close> of the
  elements replaced so far. An element of the original tree is still in the tree
  below \<open>tempDiv\<close> at its original path exactly when no path of \<open>gone\<close> is a prefix of
  its path, since \<open>replaceWith\<close> puts one node in the place of one node and moves no
  other. \<open>block.parentElement.replaceWith(svgDiv)\<close> changes the tree below \<open>tempDiv\<close>
  only if the parent is still in it and is not \<open>tempDiv\<close> itself: \<open>tempDiv\<close> has no
  parent, and a parent that left the tree with an ancestor (or was itself replaced) is
  changed, if at all, outside the tree that \<open>tempDiv.innerHTML\<close> reads at the end. The
  text of a block is that of the original element: nothing inside a block is changed
  before its turn, because a block inside it comes later in document order.
\<close>

definition svgDiv :: "dom list \<Rightarrow> dom" where
  "svgDiv svg = Elem (js ''div'') [js ''mermaid-diagram''] svg"

fun mermaid_loop :: "(nat \<Rightarrow> jsstring \<Rightarrow> exn + dom list) \<Rightarrow> nat \<Rightarrow> (path \<times> dom) list
    \<Rightarrow> dom list \<times> path list \<Rightarrow> dom list \<times> path list" where
  "mermaid_loop render i [] st = st"
| "mermaid_loop render i ((p, block) # rest) (tree, gone) =
     mermaid_loop render (Suc i) rest
       (case render i (textContent block) of
          Inl error \<Rightarrow> (tree, gone)
        | Inr svg \<Rightarrow>
            if butlast p = [] \<or> list_ex (\<lambda>g. is_prefix g (butlast p)) gone
            then (tree, gone)
            else (replace_at (butlast p) (svgDiv svg) tree, butlast p # gone))"

definition materialize :: "(nat \<Rightarrow> jsstring \<Rightarrow> exn + dom list) \<Rightarrow> dom list \<Rightarrow> dom list" where
  "materialize render html =
     fst (mermaid_loop render 0 (querySelectorAll sel_mermaid html) (html, []))"

section \<open>The state of the application and processFile\<close>

record app_state =
  selectedFile :: "js_file option"
  markdownContent :: jsstring
  parsedHtml :: "dom list"
  metadata :: document_metadata

definition initial_state :: app_state where
  "initial_state =
     \<lparr>selectedFile = None, markdownContent = [], parsedHtml = [], metadata = empty_metadata\<rparr>"

definition processMermaidDiagrams :: "(nat \<Rightarrow> jsstring \<Rightarrow> exn + dom list) \<Rightarrow> app_state
    \<Rightarrow> app_state" where
  "processMermaidDiagrams render st = st\<lparr>parsedHtml := materialize render (parsedHtml st)\<rparr>"

text \<open>
  What \<open>processFile\<close> does to the world outside its state, in order: the three messages
  of \<open>showError\<close> (unsupported format, file too large, error while reading with the
  message of the error), the read of the file, the calls of \<open>extractMetadata\<close>, of
  \<open>md.render\<close> and of \<open>processMermaidDiagrams\<close>, and the two display functions.
\<close>

datatype ui_error = UnsupportedFormat | OversizeInput | ReadFailure exn

datatype event =
    ShowError ui_error
  | ReadFileAsText jsstring
  | ExtractMetadata
  | MdRender jsstring
  | ProcessMermaid
  | DisplayFileInfo
  | DisplayPreview

text \<open>\<open>s.split('.')\<close>: the pieces of \<open>s\<close> between the dots; never the empty array.\<close>

fun split_on :: "cu \<Rightarrow> jsstring \<Rightarrow> jsstring list" where
  "split_on d [] = [[]]"
| "split_on d (c # cs) =
     (if c = d then [] # split_on d cs
      else (case split_on d cs of x # xs \<Rightarrow> (c # x) # xs | [] \<Rightarrow> [[c]]))"

definition validExtensions :: "jsstring list" where
  "validExtensions = [js ''md'', js ''markdown'', js ''txt'']"

text \<open>
  The collaborators of \<open>processFile\<close>: the Unicode case tables, \<open>jsyaml.load\<close>, the
  current date as a string, \<open>md.render\<close> (which may throw; its HTML is given as the
  nodes the browser parses from it) and \<open>mermaid.render\<close>.
\<close>

record collaborators =
  unicode_lower :: "jsstring \<Rightarrow> jsstring"
  yaml_load :: "jsval \<Rightarrow> exn + jsval"
  today :: jsstring
  md_render :: "jsstring \<Rightarrow> exn + dom list"
  mermaid_render :: "nat \<Rightarrow> jsstring \<Rightarrow> exn + dom list"

text \<open>
  Lines 103 to 143. The result is the new state and the events in the order they
  happen. Everything after \<open>selectedFile = file\<close> runs inside the \<open>try\<close>, whose \<open>catch\<close>
  shows the error.
\<close>

definition processFile :: "collaborators \<Rightarrow> js_file \<Rightarrow> app_state \<Rightarrow> app_state \<times> event list" where
  "processFile env f st =
     (let extension = toLowerCase (unicode_lower env) (last (split_on 0x2E (file_name f))) in
      if extension \<notin> set validExtensions then (st, [ShowError UnsupportedFormat])
      else if file_size f > 10 * 1024 * 1024 then (st, [ShowError OversizeInput])
      else
        let st1 = st\<lparr>selectedFile := Some f\<rparr> in
        (case file_text f of
           Inl e \<Rightarrow> (st1, [ReadFileAsText (file_name f), ShowError (ReadFailure e)])
         | Inr content \<Rightarrow>
             let st2 = st1\<lparr>markdownContent := content\<rparr> in
             (case extractMetadata (yaml_load env) (today env) (selectedFile st2) content of
                Inl e \<Rightarrow>
                  (st2, [ReadFileAsText (file_name f), ExtractMetadata, ShowError (ReadFailure e)])
              | Inr md \<Rightarrow>
                  let st3 = st2\<lparr>metadata := md\<rparr>;
                      contentWithoutFrontMatter = removeFrontMatter content
                  in
                  (case md_render env contentWithoutFrontMatter of
                     Inl e \<Rightarrow>
                       (st3, [ReadFileAsText (file_name f), ExtractMetadata,
                              MdRender contentWithoutFrontMatter, ShowError (ReadFailure e)])
                   | Inr html \<Rightarrow>
                       (processMermaidDiagrams (mermaid_render env) (st3\<lparr>parsedHtml := html\<rparr>),
                        [ReadFileAsText (file_name f), ExtractMetadata,
                         MdRender contentWithoutFrontMatter, ProcessMermaid,
                         DisplayFileInfo, DisplayPreview])))))"

section \<open>generateDOCX\<close>

text \<open>
  The paragraphs handed to the \<open>docx\<close> library, as the option objects the program
  builds: a paragraph has a \<open>text\<close> or \<open>children\<close> (text runs with \<open>italics\<close> and
  \<open>font\<close>), and possibly a \<open>heading\<close>.
\<close>

datatype heading_level =
  TITLE | HEADING_1 | HEADING_2 | HEADING_3 | HEADING_4 | HEADING_5 | HEADING_6

datatype text_run = TextRun jsstring bool "jsstring option"

datatype docx_paragraph = Paragraph "jsval option" "heading_level option" "text_run list"

text \<open>
  The table \<open>HeadingLevel\<close> of the \<open>docx\<close> library, by key; a key it does not have reads
  as \<open>undefined\<close>.
\<close>

definition HeadingLevel :: "jsstring \<Rightarrow> heading_level option" where
  "HeadingLevel =
     map_of [(js ''TITLE'', TITLE), (js ''HEADING_1'', HEADING_1), (js ''HEADING_2'', HEADING_2),
             (js ''HEADING_3'', HEADING_3), (js ''HEADING_4'', HEADING_4),
             (js ''HEADING_5'', HEADING_5), (js ''HEADING_6'', HEADING_6)]"

text \<open>
  \<open>parseInt\<close> on the rest of a tag name, which holds no white space, no sign and no
  prefix \<open>0x\<close>: the number written by the leading decimal digits, \<open>NaN\<close> (here
  \<open>None\<close>) when there is none. \<open>show_nat\<close> writes a number in decimal, as the template literal does.
\<close>

fun digits_value :: "nat \<Rightarrow> jsstring \<Rightarrow> nat" where
  "digits_value acc [] = acc"
| "digits_value acc (c # cs) =
     (if is_digit c then digits_value (acc * 10 + (unat c - 0x30)) cs else acc)"

definition parseInt :: "jsstring \<Rightarrow> nat option" where
  "parseInt s = (case s of [] \<Rightarrow> None | c # cs \<Rightarrow> if is_digit c then Some (digits_value 0 s) else None)"

fun show_nat :: "nat \<Rightarrow> jsstring" where
  "show_nat n = (if n < 10 then [of_nat (0x30 + n)] else show_nat (n div 10) @ [of_nat (0x30 + n mod 10)])"

declare show_nat.simps [simp del]

definition number_to_string :: "nat option \<Rightarrow> jsstring" where
  "number_to_string l = (case l of None \<Rightarrow> js ''NaN'' | Some n \<Rightarrow> show_nat n)"

text \<open>Lines 373 to 397, the callback of \<open>elements.forEach\<close>: the paragraphs one element adds.\<close>

definition startsWith :: "jsstring \<Rightarrow> jsstring \<Rightarrow> bool" where
  "startsWith s pre = (take (length pre) s = pre)"

fun element_paragraphs :: "dom \<Rightarrow> docx_paragraph list" where
  "element_paragraphs (Text t) = []"
| "element_paragraphs (Elem tagName cl ks) =
     (if startsWith tagName (js ''h'')
      then (let level = parseInt (drop 1 tagName) in
            [Paragraph (Some (Str (textContent (Elem tagName cl ks))))
               (Some (case HeadingLevel (js ''HEADING_'' @ number_to_string level) of
                        Some h \<Rightarrow> h
                      | None \<Rightarrow> HEADING_1))
               []])
      else if tagName = js ''p''
      then [Paragraph (Some (Str (textContent (Elem tagName cl ks)))) None []]
      else if tagName = js ''pre''
      then [Paragraph None None
              [TextRun (textContent (Elem tagName cl ks)) False (Some (js ''Courier New''))]]
      else [])"

text \<open>
  Lines 347 to 397: the array \<open>children\<close>. \<open>author_label\<close> stands for the seven code
  units of the Cyrillic label and the blank before the author's name.
\<close>

definition author_label :: jsstring where
  "author_label = [0x410, 0x432, 0x442, 0x43E, 0x440, 0x3A, 0x20]"

definition docx_children :: "(jsval \<Rightarrow> jsstring) \<Rightarrow> document_metadata \<Rightarrow> dom list \<Rightarrow> docx_paragraph list" where
  "docx_children str_of md html =
     (if truthy (title md) then [Paragraph (Some (title md)) (Some TITLE) []] else []) @
     (if truthy (author md)
      then [Paragraph None None [TextRun (author_label @ ToString str_of (author md)) True None]]
      else []) @
     [Paragraph (Some (Str [])) None []] @
     concat (map (\<lambda>(p, el). element_paragraphs el) (querySelectorAll sel_blocks html))"

text \<open>
  Lines 340 to 410. \<open>Packer.toBlob\<close> is the parameter \<open>toBlob\<close>, which may reject. The
  bytes it writes are the library's: they depend on the document and on what the
  library reads while the function runs (it stamps the document with the time of its
  creation), which is the argument \<open>run\<close>; two runs need not have the same. The result
  is the array \<open>children\<close> that goes into the document handed to the packer, together
  with the pair \<open>saveAs\<close> is called with or the error thrown. The parameter \<open>style\<close> is
  the one the function is called with at line 264.
\<close>

definition generateDOCX :: "(jsval \<Rightarrow> jsstring) \<Rightarrow> (jsstring \<Rightarrow> jsstring)
    \<Rightarrow> ('run \<Rightarrow> docx_paragraph list \<Rightarrow> exn + 'blob) \<Rightarrow> 'run \<Rightarrow> jsstring \<Rightarrow> app_state
    \<Rightarrow> docx_paragraph list \<times> (exn + ('blob \<times> jsstring))" where
  "generateDOCX str_of lower toBlob run style st =
     (let children = docx_children str_of (metadata st) (parsedHtml st) in
      (children,
       case toBlob run children of
         Inl e \<Rightarrow> Inl e
       | Inr blob \<Rightarrow>
           (case docx_filename lower (title (metadata st)) of
              Inl e \<Rightarrow> Inl e
            | Inr filename \<Rightarrow> Inr (blob, filename))))"

section \<open>Notions used in the statements\<close>

text \<open>
  \<open>ungroup\<close> removes the parentheses of a pattern; \<open>ch_count\<close> counts the items that
  consume exactly one character; \<open>ncaps p d\<close> is the number of groups that \<open>p\<close> closes
  when \<open>d\<close> groups are open at its start.
\<close>

definition ungroup :: "item list \<Rightarrow> item list" where
  "ungroup p = filter (\<lambda>i. i \<noteq> GroupOpen \<and> i \<noteq> GroupClose) p"

fun ch_count :: "item list \<Rightarrow> nat" where
  "ch_count [] = 0"
| "ch_count (Ch k # p) = Suc (ch_count p)"
| "ch_count (i # p) = ch_count p"

fun ncaps :: "item list \<Rightarrow> nat \<Rightarrow> nat" where
  "ncaps [] d = 0"
| "ncaps (GroupOpen # p) d = ncaps p (Suc d)"
| "ncaps (GroupClose # p) d = (case d of 0 \<Rightarrow> ncaps p 0 | Suc d' \<Rightarrow> Suc (ncaps p d'))"
| "ncaps (i # p) d = ncaps p d"

text \<open>
  \<open>caps_ok cs cs' n e\<close>: the captures \<open>cs'\<close> are \<open>cs\<close> followed by \<open>n\<close> new ones, each
  a well-formed range that ends at or before \<open>e\<close>.
\<close>

definition caps_ok :: "captures \<Rightarrow> captures \<Rightarrow> nat \<Rightarrow> nat \<Rightarrow> bool" where
  "caps_ok cs cs' n e =
     (\<exists>new. cs' = cs @ new \<and> length new = n \<and> list_all (\<lambda>(a, b). a \<le> b \<and> b \<le> e) new)"

text \<open>The pattern of line 157 after its \<open>^\<close>.\<close>

definition fm_body :: "item list" where
  "fm_body = lit ''---'' @ [Star True Space, Ch (Lit 0x0A),
       GroupOpen, Star False AnyChar, GroupClose,
       Ch (Lit 0x0A)] @ lit ''---'' @ [Star True Space, Ch (Lit 0x0A)]"

text \<open>The three extensions that line 174 strips.\<close>

definition extensions :: "jsstring set" where
  "extensions = {js ''.md'', js ''.markdown'', js ''.txt''}"

text \<open>
  The fragment the grammar engine returns for a heading \<open># Title\<close>, a paragraph with
  an emphasised word and a fenced code block, with the line breaks between the blocks.
\<close>

definition sample_html :: "dom list" where
  "sample_html =
     [Elem (js ''h1'') [] [Text (js ''Title'')], Text (js ''\<newline>''),
      Elem (js ''p'') [] [Text (js ''plain ''), Elem (js ''em'') [] [Text (js ''paragraph'')]],
      Text (js ''\<newline>''),
      Elem (js ''pre'') [js ''hljs''] [Elem (js ''code'') [] [Text (js ''x = 1\<newline>'')]],
      Text (js ''\<newline>'')]"

text \<open>
  Two paths are comparable when one is a prefix of the other: the nodes are the same,
  or one is an ancestor of the other. The paths of a list are independent when no two
  of them are comparable.
\<close>

definition comparable :: "path \<Rightarrow> path \<Rightarrow> bool" where
  "comparable p q = (is_prefix p q \<or> is_prefix q p)"

fun independent :: "path list \<Rightarrow> bool" where
  "independent [] = True"
| "independent (p # ps) = (list_all (\<lambda>q. \<not> comparable p q) ps \<and> independent ps)"

text \<open>
  A selector is shallow when it looks at the tag and the classes of an element only.
  \<open>wpaths\<close> and \<open>lpaths\<close> are the paths of the elements that \<open>walk\<close> and \<open>walk_list\<close> find
  and that match a selector.
\<close>

definition shallow :: "(dom \<Rightarrow> bool) \<Rightarrow> bool" where
  "shallow sel = (\<forall>tg cl ks ks'. sel (Elem tg cl ks) = sel (Elem tg cl ks'))"

definition wpaths :: "(dom \<Rightarrow> bool) \<Rightarrow> dom \<Rightarrow> path list" where
  "wpaths sel d = map fst (filter (\<lambda>(p, n). sel n) (walk d))"

definition lpaths :: "(dom \<Rightarrow> bool) \<Rightarrow> nat \<Rightarrow> dom list \<Rightarrow> path list" where
  "lpaths sel i ks = map fst (filter (\<lambda>(p, n). sel n) (walk_list i ks))"

text \<open>
  The loop of \<open>processMermaidDiagrams\<close> over the blocks paired with what \<open>render\<close>
  yields for each: \<open>outcomes\<close> pairs them, \<open>apply_outcomes\<close> is the loop on the pairs,
  \<open>successes\<close> are the parents of the blocks whose rendering succeeded, and \<open>loop_inv\<close>
  says of the blocks still to come that each has a parent below \<open>tempDiv\<close>, is at its
  path in the tree, and has a parent not comparable to any replaced path.
\<close>

type_synonym outcome = "(path \<times> dom) \<times> (exn + dom list)"

fun apply_outcomes :: "outcome list \<Rightarrow> dom list \<times> path list \<Rightarrow> dom list \<times> path list" where
  "apply_outcomes [] st = st"
| "apply_outcomes (((p, b), out) # xs) (tree, gone) =
     apply_outcomes xs
       (case out of
          Inl error \<Rightarrow> (tree, gone)
        | Inr svg \<Rightarrow>
            if butlast p = [] \<or> list_ex (\<lambda>g. is_prefix g (butlast p)) gone
            then (tree, gone)
            else (replace_at (butlast p) (svgDiv svg) tree, butlast p # gone))"

definition outcomes :: "(nat \<Rightarrow> jsstring \<Rightarrow> exn + dom list) \<Rightarrow> nat \<Rightarrow> (path \<times> dom) list \<Rightarrow> outcome list" where
  "outcomes render i blocks =
     map (\<lambda>(j, (p, b)). ((p, b), render j (textContent b))) (enumerate i blocks)"

definition parent_of :: "outcome \<Rightarrow> path" where
  "parent_of x = butlast (fst (fst x))"

definition successes :: "outcome list \<Rightarrow> path list" where
  "successes xs = map parent_of (filter (\<lambda>x. \<not> isl (snd x)) xs)"

definition loop_inv :: "dom list \<Rightarrow> path list \<Rightarrow> outcome list \<Rightarrow> bool" where
  "loop_inv tree gone xs =
     (\<forall>x \<in> set xs. parent_of x \<noteq> [] \<and> node_at tree (fst (fst x)) = Some (snd (fst x)) \<and>
        (\<forall>g \<in> set gone. \<not> comparable g (parent_of x)))"

text \<open>
  A fragment with three diagram blocks as the grammar engine writes them, each code
  element in a \<open>pre\<close> of its own, and a renderer that rejects the second diagram.
\<close>

definition three_diagrams :: "dom list" where
  "three_diagrams =
     [Elem (js ''pre'') [] [Elem (js ''code'') [js ''language-mermaid''] [Text (js ''graph A'')]],
      Text (js ''\<newline>''),
      Elem (js ''pre'') [] [Elem (js ''code'') [js ''language-mermaid''] [Text (js ''graph B'')]],
      Elem (js ''pre'') [] [Elem (js ''code'') [js ''language-mermaid''] [Text (js ''graph C'')]]]"

definition second_fails :: "nat \<Rightarrow> jsstring \<Rightarrow> exn + dom list" where
  "second_fails i t =
     (if i = 1 then Inl (Error (js ''parse error'')) else Inr [Elem (js ''svg'') [] [Text t]])"

section \<open>Properties of generatePDF\<close>

lemma length_addImage: "d \<noteq> [] \<Longrightarrow> length (addImage y h d) = length d"
  by (simp add: addImage_def)

lemma page_loop_multiple:
  "d \<noteq> [] \<Longrightarrow> length (page_loop (of_nat k * 297) h d) = length d + Suc k"
proof (induction k arbitrary: d)
  case 0
  have "page_loop 0 h d = page_loop (0 - 297) h (addImage (0 - h) h (addPage d))"
    by (subst page_loop.simps) simp
  also have "\<dots> = addImage (0 - h) h (addPage d)"
    by (subst page_loop.simps) simp
  finally show ?case
    by (simp add: length_addImage addPage_def)
next
  case (Suc k)
  let ?d' = "addImage (of_nat (Suc k) * 297 - h) h (addPage d)"
  have ne: "?d' \<noteq> []" by (simp add: addImage_def)
  have len: "length ?d' = Suc (length d)"
    by (simp add: length_addImage addPage_def)
  have "page_loop (of_nat (Suc k) * 297) h d = page_loop (of_nat (Suc k) * 297 - 297) h ?d'"
    by (subst page_loop.simps) simp
  also have "of_nat (Suc k) * 297 - 297 = (of_nat k * 297 :: rat)"
    by (simp add: algebra_simps)
  finally show ?case
    using Suc.IH [OF ne] len by simp
qed

lemma compose_pages_multiple:
  "length (compose_pages (of_nat n * 297)) = Suc n"
proof (cases n)
  case 0
  have "page_loop (0 - 297) 0 (addImage 0 0 new_jsPDF) = addImage 0 0 new_jsPDF"
    by (subst page_loop.simps) simp
  then show ?thesis
    using 0 by (simp add: compose_pages_def addImage_def new_jsPDF_def)
next
  case (Suc m)
  have "of_nat (Suc m) * 297 - 297 = (of_nat m * 297 :: rat)"
    by (simp add: algebra_simps)
  then have "compose_pages (of_nat (Suc m) * 297) =
      page_loop (of_nat m * 297) (of_nat (Suc m) * 297) (addImage 0 (of_nat (Suc m) * 297) new_jsPDF)"
    by (simp add: compose_pages_def)
  moreover have "addImage 0 (of_nat (Suc m) * 297) new_jsPDF \<noteq> []"
    by (simp add: addImage_def)
  moreover have "length (addImage 0 (of_nat (Suc m) * 297 :: rat) new_jsPDF) = 1"
    by (simp add: addImage_def new_jsPDF_def)
  ultimately show ?thesis
    using Suc by (simp add: page_loop_multiple)
qed

lemma one_page_raster:
  "generatePDF_pages 210 297 =
     [[\<lparr>pos_y = 0, img_h = 297\<rparr>], [\<lparr>pos_y = - 297, img_h = 297\<rparr>]]"
proof -
  have "page_loop 0 297 [[\<lparr>pos_y = 0, img_h = 297\<rparr>]] =
      page_loop (0 - 297) 297 (addImage (0 - 297) 297 (addPage [[\<lparr>pos_y = 0, img_h = 297\<rparr>]]))"
    by (subst page_loop.simps) simp
  also have "\<dots> = addImage (0 - 297) 297 (addPage [[\<lparr>pos_y = 0, img_h = 297\<rparr>]])"
    by (subst page_loop.simps) simp
  finally show ?thesis
    by (simp add: generatePDF_pages_def imgHeight_def imgWidth_def compose_pages_def addImage_def
        addPage_def new_jsPDF_def)
qed

text \<open>
  C1, as the claim states it, fails: a canvas of 210 by 297 pixels has the scaled
  height 297 mm, one page, and the document has two pages. After the first page
  \<open>heightLeft\<close> is 0, and the loop, which runs while \<open>heightLeft >= 0\<close>, adds a page
  with the image placed at \<open>-297\<close>.
\<close>

theorem exact_multiple_one_page_more:
  "imgHeight 210 297 = 1 * 297 \<and>
   generatePDF_pages 210 297 =
     [[\<lparr>pos_y = 0, img_h = 297\<rparr>], [\<lparr>pos_y = - 297, img_h = 297\<rparr>]] \<and>
   length (generatePDF_pages 210 297) \<noteq> 1"
  using one_page_raster by (simp add: imgHeight_def imgWidth_def)

text \<open>
  C1, amended. For every rasterized container whose scaled image height is exactly
  \<open>n\<close> times the page height of 297 mm, the document that \<open>generatePDF\<close> composes has
  exactly \<open>n + 1\<close> pages: the guard \<open>heightLeft >= 0\<close> of line 324 includes the
  boundary, so a raster that ends exactly at a page boundary gets one page more.
\<close>

theorem generatePDF_exact_multiple_pages:
  "0 < canvas_width \<Longrightarrow> imgHeight canvas_width canvas_height = of_nat n * 297 \<Longrightarrow>
     length (generatePDF_pages canvas_width canvas_height) = n + 1"
  by (simp add: generatePDF_pages_def compose_pages_multiple)

theorem generatePDF_exact_multiple_pages_witness:
  "(0 :: nat) < 1760 \<and> imgHeight 1760 17424 = of_nat 7 * 297 \<and>
   length (generatePDF_pages 1760 17424) = 7 + 1"
proof -
  have w: "(0 :: nat) < 1760"
    by simp
  have h: "imgHeight 1760 17424 = of_nat 7 * 297"
    by (simp add: imgHeight_def imgWidth_def)
  from w h generatePDF_exact_multiple_pages [OF w h] show ?thesis
    by simp
qed

section \<open>Properties of the output file names\<close>

lemma js_simps: "js [] = []" "js (c # cs) = of_nat (of_char c) # js cs"
  by (simp_all add: js_def)

lemma in_class_is_ascii: "in_class_az09_i c \<Longrightarrow> is_ascii c"
  unfolding in_class_az09_i_def is_lower_def is_upper_def is_digit_def is_ascii_def
  by (auto simp: word_le_nat_alt word_less_nat_alt)

lemma underscore_is_ascii: "is_ascii 0x5F"
  by (simp add: is_ascii_def)

lemma replace_non_alnum_ascii: "list_all is_ascii (replace_non_alnum s)"
  by (induction s)
    (auto simp: replace_non_alnum_def in_class_is_ascii js_simps underscore_is_ascii)

lemma lower_replace_non_alnum:
  "map ascii_lower (replace_non_alnum s) =
     map (\<lambda>c. if in_class_az09_i c then ascii_lower c else 0x5F) s"
  by (induction s) (auto simp: replace_non_alnum_def js_simps ascii_lower_def is_upper_def)

text \<open>
  C2, as the claim states it, fails: a character that is not alphanumeric is not
  removed, it is replaced by an underscore. The title \<open>My Doc\<close> gives \<open>my_doc.pdf\<close>,
  where removal would give \<open>mydoc.pdf\<close>.
\<close>

theorem filename_removes_nothing:
  "pdf_filename (\<lambda>s. s) (Str (js ''My Doc'')) = Inr (js ''my_doc.pdf'') \<and>
   pdf_filename (\<lambda>s. s) (Str (js ''My Doc'')) \<noteq> Inr (spec_slug (js ''My Doc'') @ js ''.pdf'')"
  by (simp add: pdf_filename_def toLowerCase_def replace_non_alnum_def spec_slug_def js_simps
      in_class_az09_i_def is_lower_def is_upper_def is_digit_def is_ascii_def ascii_lower_def)

text \<open>
  C2, amended. For every string title both renderers derive the file name by the same
  rule: code unit by code unit, an ASCII letter or digit is kept in lower case and
  every other code unit is replaced by one underscore (\<open>0x5F\<close>); then comes \<open>.pdf\<close> on
  the paginated path and \<open>.docx\<close> on the structural path. The result does not depend on
  the Unicode case tables, since the string that is lowercased is ASCII.
\<close>

theorem filename_rule:
  "pdf_filename u (Str s) =
     Inr (map (\<lambda>c. if in_class_az09_i c then ascii_lower c else 0x5F) s @ js ''.pdf'') \<and>
   docx_filename u (Str s) =
     Inr (map (\<lambda>c. if in_class_az09_i c then ascii_lower c else 0x5F) s @ js ''.docx'')"
  by (simp add: pdf_filename_def docx_filename_def toLowerCase_def replace_non_alnum_ascii
      lower_replace_non_alnum)

section \<open>Properties of the matcher\<close>

lemma rmatch_bounds:
  "rmatch p seen s os cs = Some r \<Longrightarrow>
     length seen + ch_count p \<le> fst r \<and> fst r \<le> length seen + length s"
proof (induction p seen s os cs rule: rmatch.induct)
  case (1 seen s os cs)
  then show ?case by auto
next
  case (2 p seen s os cs)
  then show ?case by (auto split: if_splits)
next
  case (3 p seen s os cs)
  then show ?case by (auto split: if_splits)
next
  case (4 k p seen s os cs)
  then show ?case by (cases s) (auto split: if_splits)
next
  case (5 k p seen s os cs)
  from 5(5) have "(case s of
        [] \<Rightarrow> rmatch p seen s os cs
      | x # xs \<Rightarrow>
          if cmatch k x
          then (case rmatch (Star True k # p) (x # seen) xs os cs of
                  Some r \<Rightarrow> Some r
                | None \<Rightarrow> rmatch p seen s os cs)
          else rmatch p seen s os cs) = Some r"
    by (simp add: rmatch.simps(5))
  with 5(1-4) show ?case
    by (cases s) (force split: if_splits option.splits)+
next
  case (6 k p seen s os cs)
  from 6(3) have "(case rmatch p seen s os cs of
        Some r \<Rightarrow> Some r
      | None \<Rightarrow>
          (case s of
             [] \<Rightarrow> None
           | x # xs \<Rightarrow>
               if cmatch k x then rmatch (Star False k # p) (x # seen) xs os cs else None)) = Some r"
    by (simp add: rmatch.simps(6))
  with 6(1-2) show ?case
    by (cases s) (force split: if_splits option.splits)+
next
  case (7 p seen s os cs)
  then show ?case by auto
next
  case (8 p seen s os cs)
  then show ?case by (cases os) auto
next
  case (9 p seen s os cs)
  then show ?case by auto
next
  case (10 a as p seen s os cs)
  from 10(4) have "(if take (length a) s = a
      then (case rmatch p (rev a @ seen) (drop (length a) s) os cs of
              Some r \<Rightarrow> Some r
            | None \<Rightarrow> rmatch (Alt as # p) seen s os cs)
      else rmatch (Alt as # p) seen s os cs) = Some r"
    by (simp add: rmatch.simps(10))
  note unfolded = this
  show ?case
  proof (cases "take (length a) s = a")
    case True
    then have "length a = min (length s) (length a)"
      by (metis length_take)
    then have le: "length a \<le> length s"
      by simp
    show ?thesis
    proof (cases "rmatch p (rev a @ seen) (drop (length a) s) os cs")
      case None
      with unfolded True 10(2) show ?thesis by simp
    next
      case (Some r')
      with unfolded True have "r' = r" by simp
      with 10(1) [OF True] Some le show ?thesis by simp
    qed
  next
    case False
    with unfolded 10(3) show ?thesis by simp
  qed
qed


lemma list_all_le_mono: "list_all (\<lambda>b. b \<le> n) os \<Longrightarrow> n \<le> m \<Longrightarrow> list_all (\<lambda>b. b \<le> (m::nat)) os"
  by (induction os) auto

lemma rmatch_captures:
  "rmatch p seen s os cs = Some r \<Longrightarrow> list_all (\<lambda>b. b \<le> length seen) os \<Longrightarrow>
     caps_ok cs (snd r) (ncaps p (length os)) (fst r)"
proof (induction p seen s os cs rule: rmatch.induct)
  case (1 seen s os cs)
  then show ?case by (auto simp: caps_ok_def)
next
  case (2 p seen s os cs)
  then show ?case by (auto split: if_splits)
next
  case (3 p seen s os cs)
  then show ?case by (auto split: if_splits)
next
  case (4 k p seen s os cs)
  show ?case
  proof (cases s)
    case Nil
    with 4(2) show ?thesis by simp
  next
    case (Cons x xs)
    with 4(2) have m: "cmatch k x" and r: "rmatch p (x # seen) xs os cs = Some r"
      by (auto split: if_splits)
    have "list_all (\<lambda>b. b \<le> length (x # seen)) os"
      using 4(3) by (rule list_all_le_mono) simp
    with 4(1) [OF Cons m r] show ?thesis by simp
  qed
next
  case (5 k p seen s os cs)
  from 5(5) have u: "(case s of
        [] \<Rightarrow> rmatch p seen s os cs
      | x # xs \<Rightarrow>
          if cmatch k x
          then (case rmatch (Star True k # p) (x # seen) xs os cs of
                  Some r \<Rightarrow> Some r
                | None \<Rightarrow> rmatch p seen s os cs)
          else rmatch p seen s os cs) = Some r"
    by (simp add: rmatch.simps(5))
  show ?case
  proof (cases s)
    case Nil
    with u 5(1) 5(6) show ?thesis by simp
  next
    case (Cons x xs)
    show ?thesis
    proof (cases "cmatch k x")
      case True
      show ?thesis
      proof (cases "rmatch (Star True k # p) (x # seen) xs os cs")
        case None
        with u Cons True have "rmatch p seen s os cs = Some r" by simp
        with 5(3) [OF Cons True None] 5(6) show ?thesis by simp
      next
        case (Some r')
        with u Cons True have "r' = r" by simp
        moreover have "list_all (\<lambda>b. b \<le> length (x # seen)) os"
          using 5(6) by (rule list_all_le_mono) simp
        ultimately show ?thesis using 5(2) [OF Cons True] Some by simp
      qed
    next
      case False
      with u Cons have "rmatch p seen s os cs = Some r" by simp
      with 5(4) [OF Cons False] 5(6) show ?thesis by simp
    qed
  qed
next
  case (6 k p seen s os cs)
  from 6(3) have u: "(case rmatch p seen s os cs of
        Some r \<Rightarrow> Some r
      | None \<Rightarrow>
          (case s of
             [] \<Rightarrow> None
           | x # xs \<Rightarrow>
               if cmatch k x then rmatch (Star False k # p) (x # seen) xs os cs else None)) = Some r"
    by (simp add: rmatch.simps(6))
  show ?case
  proof (cases "rmatch p seen s os cs")
    case None
    show ?thesis
    proof (cases s)
      case Nil
      with u None show ?thesis by simp
    next
      case (Cons x xs)
      with u None have m: "cmatch k x" and r: "rmatch (Star False k # p) (x # seen) xs os cs = Some r"
        by (auto split: if_splits)
      have "list_all (\<lambda>b. b \<le> length (x # seen)) os"
        using 6(4) by (rule list_all_le_mono) simp
      with 6(2) [OF None Cons m r] show ?thesis by simp
    qed
  next
    case (Some r')
    with u have "r' = r" by simp
    with 6(1) Some 6(4) show ?thesis by simp
  qed
next
  case (7 p seen s os cs)
  then show ?case by simp
next
  case (8 p seen s os cs)
  show ?case
  proof (cases os)
    case Nil
    with 8(1) 8(3) 8(4) show ?thesis by simp
  next
    case (Cons b os')
    with 8(3) have r: "rmatch p seen s os' (cs @ [(b, length seen)]) = Some r" by simp
    from 8(4) Cons have b: "b \<le> length seen" and os': "list_all (\<lambda>b. b \<le> length seen) os'"
      by simp_all
    from rmatch_bounds [OF r] have e: "length seen \<le> fst r" by simp
    from 8(2) [OF Cons r os'] obtain new where
      "snd r = (cs @ [(b, length seen)]) @ new" "length new = ncaps p (length os')"
      "list_all (\<lambda>(a, b). a \<le> b \<and> b \<le> fst r) new"
      by (auto simp: caps_ok_def)
    with b e Cons show ?thesis
      by (auto simp: caps_ok_def intro!: exI [of _ "(b, length seen) # new"])
  qed
next
  case (9 p seen s os cs)
  then show ?case by simp
next
  case (10 a as p seen s os cs)
  from 10(4) have u: "(if take (length a) s = a
      then (case rmatch p (rev a @ seen) (drop (length a) s) os cs of
              Some r \<Rightarrow> Some r
            | None \<Rightarrow> rmatch (Alt as # p) seen s os cs)
      else rmatch (Alt as # p) seen s os cs) = Some r"
    by (simp add: rmatch.simps(10))
  show ?case
  proof (cases "take (length a) s = a")
    case True
    show ?thesis
    proof (cases "rmatch p (rev a @ seen) (drop (length a) s) os cs")
      case None
      with u True 10(2) 10(5) show ?thesis by simp
    next
      case (Some r')
      with u True have "r' = r" by simp
      moreover have "list_all (\<lambda>b. b \<le> length (rev a @ seen)) os"
        using 10(5) by (rule list_all_le_mono) simp
      ultimately show ?thesis using 10(1) [OF True] Some by simp
    qed
  next
    case False
    with u 10(3) 10(5) show ?thesis by simp
  qed
qed


lemma ungroup_simps [simp]:
  "ungroup [] = []"
  "ungroup (Bol # p) = Bol # ungroup p"
  "ungroup (Eol # p) = Eol # ungroup p"
  "ungroup (Ch k # p) = Ch k # ungroup p"
  "ungroup (Star g k # p) = Star g k # ungroup p"
  "ungroup (GroupOpen # p) = ungroup p"
  "ungroup (GroupClose # p) = ungroup p"
  "ungroup (Alt as # p) = Alt as # ungroup p"
  by (simp_all add: ungroup_def)

lemma rmatch_groups:
  "map_option fst (rmatch p seen s os cs) = map_option fst (rmatch (ungroup p) seen s os' cs')"
proof (induction p seen s os cs arbitrary: os' cs' rule: rmatch.induct)
  case (1 seen s os cs)
  then show ?case by (simp add: rmatch.simps(5,6,10))
next
  case (2 p seen s os cs)
  then show ?case by (simp add: rmatch.simps(5,6,10))
next
  case (3 p seen s os cs)
  then show ?case by (simp add: rmatch.simps(5,6,10))
next
  case (4 k p seen s os cs)
  then show ?case by (cases s) simp_all
next
  case (5 k p seen s os cs)
  show ?case
  proof (cases s)
    case Nil
    with 5(1) show ?thesis by (simp add: rmatch.simps(5,6,10))
  next
    case (Cons x xs)
    show ?thesis
    proof (cases "cmatch k x")
      case True
      have a: "map_option fst (rmatch (Star True k # p) (x # seen) xs os cs) =
               map_option fst (rmatch (Star True k # ungroup p) (x # seen) xs os' cs')"
        using 5(2) [OF Cons True, of os' cs'] by (simp add: rmatch.simps(5,6,10))
      show ?thesis
      proof (cases "rmatch (Star True k # p) (x # seen) xs os cs")
        case None
        have b: "map_option fst (rmatch p seen s os cs) =
                 map_option fst (rmatch (ungroup p) seen s os' cs')"
          using 5(3) [OF Cons True None] .
        from None a have "rmatch (Star True k # ungroup p) (x # seen) xs os' cs' = None"
          by (simp add: rmatch.simps(5,6,10))
        with None b Cons True show ?thesis by (simp add: rmatch.simps(5,6,10))
      next
        case (Some r)
        with a obtain r' where "rmatch (Star True k # ungroup p) (x # seen) xs os' cs' = Some r'"
          and "fst r' = fst r"
          by (cases "rmatch (Star True k # ungroup p) (x # seen) xs os' cs'") auto
        with Some Cons True show ?thesis by (simp add: rmatch.simps(5,6,10))
      qed
    next
      case False
      with 5(4) [OF Cons False, of os' cs'] Cons show ?thesis by (simp add: rmatch.simps(5,6,10))
    qed
  qed
next
  case (6 k p seen s os cs)
  have a: "map_option fst (rmatch p seen s os cs) = map_option fst (rmatch (ungroup p) seen s os' cs')"
    using 6(1) .
  show ?case
  proof (cases "rmatch p seen s os cs")
    case None
    then have n': "rmatch (ungroup p) seen s os' cs' = None" using a by (simp add: rmatch.simps(5,6,10))
    show ?thesis
    proof (cases s)
      case Nil
      with None n' show ?thesis by (simp add: rmatch.simps(5,6,10))
    next
      case (Cons x xs)
      show ?thesis
      proof (cases "cmatch k x")
        case True
        have "map_option fst (rmatch (Star False k # p) (x # seen) xs os cs) =
               map_option fst (rmatch (Star False k # ungroup p) (x # seen) xs os' cs')"
          using 6(2) [OF None Cons True, of os' cs'] by (simp add: rmatch.simps(5,6,10))
        with None n' Cons True show ?thesis by (simp add: rmatch.simps(5,6,10))
      next
        case False
        with None n' Cons show ?thesis by (simp add: rmatch.simps(5,6,10))
      qed
    qed
  next
    case (Some r)
    then obtain r' where "rmatch (ungroup p) seen s os' cs' = Some r'" "fst r' = fst r"
      using a by (cases "rmatch (ungroup p) seen s os' cs'") auto
    with Some show ?thesis by (simp add: rmatch.simps(5,6,10))
  qed
next
  case (7 p seen s os cs)
  then show ?case by (simp add: rmatch.simps(5,6,10))
next
  case (8 p seen s os cs)
  then show ?case by (cases os) simp_all
next
  case (9 p seen s os cs)
  then show ?case by (simp add: rmatch.simps(5,6,10))
next
  case (10 a as p seen s os cs)
  show ?case
  proof (cases "take (length a) s = a")
    case True
    have x: "map_option fst (rmatch p (rev a @ seen) (drop (length a) s) os cs) =
             map_option fst (rmatch (ungroup p) (rev a @ seen) (drop (length a) s) os' cs')"
      using 10(1) [OF True] .
    show ?thesis
    proof (cases "rmatch p (rev a @ seen) (drop (length a) s) os cs")
      case None
      have y: "map_option fst (rmatch (Alt as # p) seen s os cs) =
               map_option fst (rmatch (Alt as # ungroup p) seen s os' cs')"
        using 10(2) [OF True None, of os' cs'] by (simp add: rmatch.simps(5,6,10))
      from None x have "rmatch (ungroup p) (rev a @ seen) (drop (length a) s) os' cs' = None"
        by (simp add: rmatch.simps(5,6,10))
      with None y True show ?thesis by (simp add: rmatch.simps(5,6,10))
    next
      case (Some r)
      with x obtain r' where
        "rmatch (ungroup p) (rev a @ seen) (drop (length a) s) os' cs' = Some r'" "fst r' = fst r"
        by (cases "rmatch (ungroup p) (rev a @ seen) (drop (length a) s) os' cs'") auto
      with Some True show ?thesis by (simp add: rmatch.simps(5,6,10))
    qed
  next
    case False
    with 10(3) [OF False, of os' cs'] show ?thesis by (simp add: rmatch.simps(5,6,10))
  qed
qed

lemma exec_from_bol: "seen \<noteq> [] \<Longrightarrow> exec_from (Bol # q) seen s = None"
  by (induction s arbitrary: seen) simp_all

lemma exec_bol:
  "exec (Bol # q) s =
     (case rmatch q [] s [] [] of Some (e, cs) \<Rightarrow> Some (0, e, cs) | None \<Rightarrow> None)"
  by (cases s) (simp_all add: exec_def exec_from_bol split: option.splits)

lemma extract_bol: "frontMatterRegex_extract = Bol # fm_body"
  by (simp add: frontMatterRegex_extract_def fm_body_def)

lemma remove_bol: "frontMatterRegex_remove = Bol # ungroup fm_body"
  by (simp add: frontMatterRegex_remove_def fm_body_def lit_def js_simps)

lemma ch_count_fm: "ch_count fm_body = 9" "ncaps fm_body 0 = 1" "ch_count (ungroup fm_body) = 9"
  "ncaps (ungroup fm_body) 0 = 0"
  by (simp_all add: fm_body_def lit_def js_simps)

lemma caps_ok_0: "caps_ok [] cs 0 e \<Longrightarrow> cs = []"
  by (auto simp: caps_ok_def)

lemma caps_ok_1: "caps_ok [] cs (Suc 0) e \<Longrightarrow> \<exists>a b. cs = [(a, b)] \<and> a \<le> b \<and> b \<le> e"
  by (auto simp: caps_ok_def length_Suc_conv)

lemma rmatch_groups_None:
  "(rmatch p seen s os cs = None) = (rmatch (ungroup p) seen s os' cs' = None)"
  using rmatch_groups [of p seen s os cs os' cs']
  by (cases "rmatch p seen s os cs"; cases "rmatch (ungroup p) seen s os' cs'") auto

lemma exec_extract_None:
  "exec frontMatterRegex_extract c = None \<longleftrightarrow> exec frontMatterRegex_remove c = None"
proof -
  have "(rmatch fm_body [] c [] [] = None) = (rmatch (ungroup fm_body) [] c [] [] = None)"
    by (rule rmatch_groups_None)
  then show ?thesis
    by (cases "rmatch fm_body [] c [] []"; cases "rmatch (ungroup fm_body) [] c [] []")
       (auto simp: extract_bol remove_bol exec_bol)
qed

lemma exec_extract_Some:
  assumes "exec frontMatterRegex_extract c = Some m"
  shows "\<exists>e a b. m = (0, e, [(a, b)]) \<and> a \<le> b \<and> b \<le> e \<and> 9 \<le> e \<and> e \<le> length c \<and>
           exec frontMatterRegex_remove c = Some (0, e, [])"
proof -
  from assms obtain e cs where r: "rmatch fm_body [] c [] [] = Some (e, cs)" and m: "m = (0, e, cs)"
    by (auto simp: extract_bol exec_bol split: option.splits)
  from rmatch_bounds [OF r] have b: "9 \<le> e" "e \<le> length c"
    by (simp_all add: ch_count_fm)
  from rmatch_captures [OF r] have "caps_ok [] cs (Suc 0) e"
    by (simp add: ch_count_fm)
  then obtain a b where cs: "cs = [(a, b)]" "a \<le> b" "b \<le> e"
    using caps_ok_1 by blast
  have "map_option fst (rmatch fm_body [] c [] []) = map_option fst (rmatch (ungroup fm_body) [] c [] [])"
    by (rule rmatch_groups)
  with r obtain cs' where r': "rmatch (ungroup fm_body) [] c [] [] = Some (e, cs')"
    by (cases "rmatch (ungroup fm_body) [] c [] []") auto
  from rmatch_captures [OF r'] have "cs' = []"
    by (simp add: ch_count_fm caps_ok_0)
  with r' have "exec frontMatterRegex_remove c = Some (0, e, [])"
    by (simp add: remove_bol exec_bol)
  with m cs b show ?thesis by simp
qed

lemma remove_no_match: "exec frontMatterRegex_remove s = None \<Longrightarrow> removeFrontMatter s = s"
  by (simp add: removeFrontMatter_def replace_first_def)

lemma exec_remove_Some:
  assumes "exec frontMatterRegex_remove c = Some m"
  shows "\<exists>e. m = (0, e, []) \<and> 9 \<le> e \<and> e \<le> length c"
proof -
  from assms obtain e cs where r: "rmatch (ungroup fm_body) [] c [] [] = Some (e, cs)" and m: "m = (0, e, cs)"
    by (auto simp: remove_bol exec_bol split: option.splits)
  from rmatch_bounds [OF r] have b: "9 \<le> e" "e \<le> length c"
    by (simp_all add: ch_count_fm)
  from rmatch_captures [OF r] have "cs = []"
    by (simp add: ch_count_fm caps_ok_0)
  with m b show ?thesis by simp
qed

lemma remove_match:
  assumes "exec frontMatterRegex_remove s = Some m"
  shows "removeFrontMatter s \<noteq> s"
proof -
  from exec_remove_Some [OF assms] obtain e where m: "m = (0, e, [])" and e: "9 \<le> e" "e \<le> length s"
    by blast
  from assms m have "removeFrontMatter s = drop e s"
    by (simp add: removeFrontMatter_def replace_first_def)
  moreover from e have "length (drop e s) < length s" by simp
  ultimately have "length (removeFrontMatter s) < length s" by simp
  then show ?thesis by auto
qed

lemma take_drop_eq: "length a = n \<Longrightarrow> (take n xs = a \<and> drop n xs = []) = (xs = a)"
  by (metis append_Nil2 append_take_drop_id drop_all order_refl take_all)

lemma rmatch_extension:
  "rmatch extensionRegex seen s [] [] =
     (if s \<in> extensions then Some (length seen + length s, [(Suc (length seen), length seen + length s)])
      else None)"
proof (cases s)
  case Nil
  then show ?thesis by (simp add: extensionRegex_def extensions_def js_simps)
next
  case (Cons x xs)
  have e1: "(take 2 xs = js ''md'' \<and> drop 2 xs = []) = (xs = js ''md'')"
    by (rule take_drop_eq) (simp add: js_simps)
  have e2: "(take 8 xs = js ''markdown'' \<and> drop 8 xs = []) = (xs = js ''markdown'')"
    by (rule take_drop_eq) (simp add: js_simps)
  have e3: "(take 3 xs = js ''txt'' \<and> drop 3 xs = []) = (xs = js ''txt'')"
    by (rule take_drop_eq) (simp add: js_simps)
  have l: "length (js ''md'') = 2" "length (js ''markdown'') = 8" "length (js ''txt'') = 3"
    by (simp_all add: js_simps)
  show ?thesis
    using e1 e2 e3 unfolding Cons extensionRegex_def extensions_def
    apply (simp add: rmatch.simps(10) l)
    apply (auto simp: js_simps)
    done
qed


lemma not_extension_longer:
  assumes "ext \<in> extensions"
  shows "b # bs @ ext \<notin> extensions"
proof
  assume "b # bs @ ext \<in> extensions"
  then have "rev (b # bs @ ext) \<in> rev ` extensions"
    by (rule imageI)
  with assms show False
    by (auto simp: extensions_def js_simps)
qed

lemma exec_from_extension:
  "ext \<in> extensions \<Longrightarrow>
     exec_from extensionRegex seen (base @ ext) =
       Some (length seen + length base, length seen + length base + length ext,
             [(Suc (length seen + length base), length seen + length base + length ext)])"
proof (induction base arbitrary: seen)
  case Nil
  then obtain x xs where "ext = x # xs"
    by (cases ext) (auto simp: extensions_def js_simps)
  with Nil show ?case
    by (simp add: rmatch_extension)
next
  case (Cons b bs)
  have "b # bs @ ext \<notin> extensions"
    using Cons.prems by (rule not_extension_longer)
  then have "rmatch extensionRegex seen (b # bs @ ext) [] [] = None"
    by (simp add: rmatch_extension)
  then show ?case
    using Cons.IH [OF Cons.prems, of "b # seen"] by simp
qed

lemma strip_extension:
  "ext \<in> extensions \<Longrightarrow> replace_first extensionRegex (base @ ext) = base"
  by (simp add: replace_first_def exec_def exec_from_extension)

section \<open>Properties of removeFrontMatter and of extractMetadata\<close>




text \<open>
  C5. \<open>extractMetadata\<close> and \<open>removeFrontMatter\<close> agree on the front-matter block:
  \<open>extractMetadata\<close> finds a leading block exactly when \<open>removeFrontMatter\<close> strips
  something, and when it finds one, the match starts at 0 and ends at some \<open>e\<close>, the
  prefix \<open>removeFrontMatter\<close> strips is exactly the first \<open>e\<close> code units, and the
  text \<open>extractMetadata\<close> hands to the YAML parser is the range from \<open>a\<close> to \<open>b\<close>
  inside that prefix.
\<close>

theorem front_matter_agreement:
  "(exec frontMatterRegex_extract content = None) = (removeFrontMatter content = content) \<and>
   (\<forall>m. exec frontMatterRegex_extract content = Some m \<longrightarrow>
      (\<exists>e a b. m = (0, e, [(a, b)]) \<and> a \<le> b \<and> b \<le> e \<and> e \<le> length content \<and>
         removeFrontMatter content = drop e content \<and>
         extractMetadata load now f content =
           (case try_front_matter load now (Str (slice content a b)) of
              Inr md \<Rightarrow> Inr md
            | Inl x \<Rightarrow> Inr (default_metadata now f))))"
proof (intro conjI allI impI)
  show "(exec frontMatterRegex_extract content = None) = (removeFrontMatter content = content)"
  proof (cases "exec frontMatterRegex_remove content")
    case None
    then show ?thesis
      using remove_no_match exec_extract_None by simp
  next
    case (Some m)
    then show ?thesis
      using remove_match [OF Some] exec_extract_None [of content] by simp
  qed
next
  fix m
  assume m: "exec frontMatterRegex_extract content = Some m"
  from exec_extract_Some [OF m] obtain e a b where
    *: "m = (0, e, [(a, b)])" "a \<le> b" "b \<le> e" "e \<le> length content"
       "exec frontMatterRegex_remove content = Some (0, e, [])"
    by blast
  have "removeFrontMatter content = drop e content"
    using * by (simp add: removeFrontMatter_def replace_first_def)
  moreover have "match_group content m 1 = Str (slice content a b)"
    using * by (simp add: match_group_def)
  ultimately show "\<exists>e a b. m = (0, e, [(a, b)]) \<and> a \<le> b \<and> b \<le> e \<and> e \<le> length content \<and>
         removeFrontMatter content = drop e content \<and>
         extractMetadata load now f content =
           (case try_front_matter load now (Str (slice content a b)) of
              Inr md \<Rightarrow> Inr md
            | Inl x \<Rightarrow> Inr (default_metadata now f))"
    using * m by (simp add: extractMetadata_def)
qed

theorem front_matter_agreement_witness:
  "exec frontMatterRegex_extract (js ''---\<newline>title: x\<newline>---\<newline>body'') = Some (0, 17, [(4, 12)]) \<and>
   removeFrontMatter (js ''---\<newline>title: x\<newline>---\<newline>body'') \<noteq> js ''---\<newline>title: x\<newline>---\<newline>body'' \<and>
   removeFrontMatter (js ''---\<newline>title: x\<newline>---\<newline>body'') =
     drop 17 (js ''---\<newline>title: x\<newline>---\<newline>body'') \<and>
   extractMetadata (\<lambda>v. Inr (Obj [(js ''title'', Str (js ''x''))])) (js ''02.11.2026'') None
       (js ''---\<newline>title: x\<newline>---\<newline>body'') =
     (case try_front_matter (\<lambda>v. Inr (Obj [(js ''title'', Str (js ''x''))])) (js ''02.11.2026'')
             (Str (slice (js ''---\<newline>title: x\<newline>---\<newline>body'') 4 12)) of
        Inr md \<Rightarrow> Inr md
      | Inl x \<Rightarrow> Inr (default_metadata (js ''02.11.2026'') None))"
proof -
  have h: "exec frontMatterRegex_extract (js ''---\<newline>title: x\<newline>---\<newline>body'') = Some (0, 17, [(4, 12)])"
    by code_simp
  from h front_matter_agreement [of "js ''---\<newline>title: x\<newline>---\<newline>body''"
      "\<lambda>v. Inr (Obj [(js ''title'', Str (js ''x''))])" "js ''02.11.2026''" None]
  show ?thesis by auto
qed

lemma try_front_matter_cases:
  "try_front_matter load now m1 =
     (case load m1 of
        Inl e \<Rightarrow> Inl e
      | Inr Undefined \<Rightarrow> Inl TypeError
      | Inr Null \<Rightarrow> Inl TypeError
      | Inr (Obj ps) \<Rightarrow>
          Inr \<lparr>title = js_or (case map_of ps (js ''title'') of Some v \<Rightarrow> v | None \<Rightarrow> Undefined)
                          (Str placeholder),
               author = js_or (case map_of ps (js ''author'') of Some v \<Rightarrow> v | None \<Rightarrow> Undefined)
                          (Str []),
               date = js_or (case map_of ps (js ''date'') of Some v \<Rightarrow> v | None \<Rightarrow> Undefined)
                          (Str now)\<rparr>
      | Inr v \<Rightarrow> Inr \<lparr>title = Str placeholder, author = Str [], date = Str now\<rparr>)"
  by (simp add: try_front_matter_def js_or_def split: sum.splits jsval.splits)

lemma default_metadata_no_file:
  "default_metadata now None = \<lparr>title = Str placeholder, author = Str [], date = Str now\<rparr>"
  by (simp add: default_metadata_def)

lemma default_metadata_file:
  "ext \<in> extensions \<Longrightarrow> file_name f = base @ ext \<Longrightarrow>
     default_metadata now (Some f) = \<lparr>title = Str base, author = Str [], date = Str now\<rparr>"
  by (simp add: default_metadata_def strip_extension)

lemma get_prop_Inl: "get_prop v k = Inl e \<Longrightarrow> v = Undefined \<or> v = Null"
  by (cases v) auto

text \<open>
  C6, as the claim states it, fails where the block parses to a value that is neither
  an object nor \<open>null\<close> nor \<open>undefined\<close>: for the block \<open>42\<close> of the file \<open>doc.md\<close>
  the title is the placeholder, not the file name without its extension.
\<close>

theorem extractMetadata_non_object_placeholder:
  "extractMetadata (\<lambda>v. Inr (Num 42)) (js ''02.11.2026'')
       (Some \<lparr>file_name = js ''doc.md'', file_size = 11, file_text = Inr (js ''---\<newline>42\<newline>---\<newline>'')\<rparr>)
       (js ''---\<newline>42\<newline>---\<newline>'') =
     Inr \<lparr>title = Str placeholder, author = Str [], date = Str (js ''02.11.2026'')\<rparr> \<and>
   Str placeholder \<noteq> Str (js ''doc'')"
  by code_simp

text \<open>
  C6, amended. \<open>extractMetadata\<close> never raises: for every input it returns a
  document metadata. When no leading block matches, when \<open>jsyaml.load\<close> throws, and
  when it returns \<open>undefined\<close> or \<open>null\<close>, the result is the defaults: the title is
  the placeholder when no file is selected, and for a selected file whose name ends in
  \<open>.md\<close>, \<open>.markdown\<close> or \<open>.txt\<close> it is the name without that extension; the author
  is the empty string; the date is the current-date string. When \<open>jsyaml.load\<close> returns
  an object, each field is the object's value if that is truthy and the default of the
  \<open>try\<close> block otherwise. When it returns any other value (a number, a string, a
  boolean, an array, a date), the title is the placeholder, also when a file is
  selected, the author is empty and the date is the current-date string.
\<close>

theorem extractMetadata_total:
  "\<exists>md. extractMetadata load now f content = Inr md \<and>
     (case exec frontMatterRegex_extract content of
        None \<Rightarrow> md = default_metadata now f
      | Some m \<Rightarrow>
          (case load (match_group content m 1) of
             Inl e \<Rightarrow> md = default_metadata now f
           | Inr Undefined \<Rightarrow> md = default_metadata now f
           | Inr Null \<Rightarrow> md = default_metadata now f
           | Inr (Obj ps) \<Rightarrow>
               md = \<lparr>title = js_or (case map_of ps (js ''title'') of Some v \<Rightarrow> v | None \<Rightarrow> Undefined)
                                 (Str placeholder),
                      author = js_or (case map_of ps (js ''author'') of Some v \<Rightarrow> v | None \<Rightarrow> Undefined)
                                 (Str []),
                      date = js_or (case map_of ps (js ''date'') of Some v \<Rightarrow> v | None \<Rightarrow> Undefined)
                                 (Str now)\<rparr>
           | Inr v \<Rightarrow> md = \<lparr>title = Str placeholder, author = Str [], date = Str now\<rparr>)) \<and>
   default_metadata now None = \<lparr>title = Str placeholder, author = Str [], date = Str now\<rparr> \<and>
   (\<forall>g base ext. f = Some g \<and> ext \<in> extensions \<and> file_name g = base @ ext \<longrightarrow>
      default_metadata now f = \<lparr>title = Str base, author = Str [], date = Str now\<rparr>)"
  by (auto simp: extractMetadata_def try_front_matter_cases default_metadata_no_file
      default_metadata_file split: option.splits sum.splits jsval.splits)

theorem extractMetadata_total_witness:
  "extractMetadata (\<lambda>v. Inl YAMLException) (js ''02.11.2026'')
       (Some \<lparr>file_name = js ''doc.md'', file_size = 21,
              file_text = Inr (js ''---\<newline>title: x\<newline>---\<newline>body'')\<rparr>)
       (js ''---\<newline>title: x\<newline>---\<newline>body'') =
     Inr \<lparr>title = Str (js ''doc''), author = Str [], date = Str (js ''02.11.2026'')\<rparr>"
proof -
  let ?F = "\<lparr>file_name = js ''doc.md'', file_size = 21,
              file_text = Inr (js ''---\<newline>title: x\<newline>---\<newline>body'')\<rparr>"
  let ?D = "js ''---\<newline>title: x\<newline>---\<newline>body''"
  have h: "exec frontMatterRegex_extract ?D = Some (0, 17, [(4, 12)])"
    by code_simp
  have e: "js ''.md'' \<in> extensions"
    by (simp add: extensions_def)
  have n: "file_name ?F = js ''doc'' @ js ''.md''"
    by (simp add: js_simps)
  from extractMetadata_total [of "\<lambda>v. Inl YAMLException" "js ''02.11.2026''" "Some ?F" ?D]
  obtain md where md: "extractMetadata (\<lambda>v. Inl YAMLException) (js ''02.11.2026'') (Some ?F) ?D = Inr md"
    and d: "md = default_metadata (js ''02.11.2026'') (Some ?F)"
    and f: "\<forall>g base ext. Some ?F = Some g \<and> ext \<in> extensions \<and> file_name g = base @ ext \<longrightarrow>
      default_metadata (js ''02.11.2026'') (Some ?F) =
        \<lparr>title = Str base, author = Str [], date = Str (js ''02.11.2026'')\<rparr>"
    using h by auto
  from f e n have "default_metadata (js ''02.11.2026'') (Some ?F) =
        \<lparr>title = Str (js ''doc''), author = Str [], date = Str (js ''02.11.2026'')\<rparr>"
    by blast
  with md d show ?thesis by simp
qed

text \<open>
  C10, as the claim states it, fails: a block that parses successfully to \<open>undefined\<close>
  (an empty block) has no truthy title, and the title is then the file name without its
  extension, not the placeholder; the same holds when \<open>jsyaml.load\<close> throws. So the
  file name is also used when a block matches.
\<close>

theorem empty_block_gets_filename_title:
  "exec frontMatterRegex_extract (js ''---\<newline>\<newline>---\<newline>body'') = Some (0, 9, [(4, 4)]) \<and>
   extractMetadata (\<lambda>v. Inr Undefined) (js ''02.11.2026'')
       (Some \<lparr>file_name = js ''doc.md'', file_size = 13,
              file_text = Inr (js ''---\<newline>\<newline>---\<newline>body'')\<rparr>)
       (js ''---\<newline>\<newline>---\<newline>body'') =
     Inr \<lparr>title = Str (js ''doc''), author = Str [], date = Str (js ''02.11.2026'')\<rparr> \<and>
   extractMetadata (\<lambda>v. Inl YAMLException) (js ''02.11.2026'')
       (Some \<lparr>file_name = js ''doc.md'', file_size = 13,
              file_text = Inr (js ''---\<newline>\<newline>---\<newline>body'')\<rparr>)
       (js ''---\<newline>\<newline>---\<newline>body'') =
     Inr \<lparr>title = Str (js ''doc''), author = Str [], date = Str (js ''02.11.2026'')\<rparr> \<and>
   Str (js ''doc'') \<noteq> Str placeholder"
  by code_simp

text \<open>
  C10, amended. When a leading block is present and \<open>jsyaml.load\<close> returns a value
  other than \<open>undefined\<close> and \<open>null\<close>, the title is that value's \<open>title\<close> if it is
  truthy and the placeholder otherwise, whatever the file name. The defaults, with the
  title derived from the file name, are returned when no block matches, when
  \<open>jsyaml.load\<close> throws, and when it returns \<open>undefined\<close> or \<open>null\<close>.
\<close>

theorem title_fallbacks:
  "(exec frontMatterRegex_extract content = Some m \<and> load (match_group content m 1) = Inr v \<and>
    v \<noteq> Undefined \<and> v \<noteq> Null \<and> get_prop v (js ''title'') = Inr t \<longrightarrow>
      (\<exists>md. extractMetadata load now f content = Inr md \<and>
            title md = (if truthy t then t else Str placeholder))) \<and>
   (exec frontMatterRegex_extract content = None \<or>
    (\<exists>m. exec frontMatterRegex_extract content = Some m \<and>
         (load (match_group content m 1) = Inr Undefined \<or>
          load (match_group content m 1) = Inr Null \<or>
          (\<exists>e. load (match_group content m 1) = Inl e))) \<longrightarrow>
      extractMetadata load now f content = Inr (default_metadata now f))"
  by (auto simp: extractMetadata_def try_front_matter_def js_or_def dest: get_prop_Inl
      split: option.splits sum.splits)

theorem title_fallbacks_witness:
  "extractMetadata (\<lambda>v. Inr (Obj [(js ''author'', Str (js ''me''))])) (js ''02.11.2026'')
       (Some \<lparr>file_name = js ''doc.md'', file_size = 24,
              file_text = Inr (js ''---\<newline>author: me\<newline>---\<newline>body'')\<rparr>)
       (js ''---\<newline>author: me\<newline>---\<newline>body'') =
     Inr \<lparr>title = Str placeholder, author = Str (js ''me''), date = Str (js ''02.11.2026'')\<rparr> \<and>
   extractMetadata (\<lambda>v. Inr (Obj [(js ''author'', Str (js ''me''))])) (js ''02.11.2026'')
       (Some \<lparr>file_name = js ''doc.md'', file_size = 4, file_text = Inr (js ''body'')\<rparr>)
       (js ''body'') =
     Inr (default_metadata (js ''02.11.2026'')
       (Some \<lparr>file_name = js ''doc.md'', file_size = 4, file_text = Inr (js ''body'')\<rparr>))"
proof -
  let ?L = "\<lambda>v. Inr (Obj [(js ''author'', Str (js ''me''))])"
  let ?N = "js ''02.11.2026''"
  let ?F = "Some \<lparr>file_name = js ''doc.md'', file_size = 24,
              file_text = Inr (js ''---\<newline>author: me\<newline>---\<newline>body'')\<rparr>"
  let ?D = "js ''---\<newline>author: me\<newline>---\<newline>body''"
  have h: "exec frontMatterRegex_extract ?D = Some (0, 19, [(4, 14)])"
    by code_simp
  have g: "get_prop (Obj [(js ''author'', Str (js ''me''))]) (js ''title'') = Inr Undefined"
    by (simp add: js_simps)
  from title_fallbacks [of ?D "(0, 19, [(4, 14)])" ?L "Obj [(js ''author'', Str (js ''me''))]" Undefined ?N ?F]
    h g
  obtain md where md: "extractMetadata ?L ?N ?F ?D = Inr md" and t: "title md = Str placeholder"
    by auto
  have "extractMetadata ?L ?N ?F ?D =
     Inr \<lparr>title = title md, author = Str (js ''me''), date = Str (js ''02.11.2026'')\<rparr>"
    using md h by (auto simp: extractMetadata_def try_front_matter_cases js_or_def match_group_def js_simps)
  moreover have "exec frontMatterRegex_extract (js ''body'') = None"
    by code_simp
  ultimately show ?thesis
    using t title_fallbacks [of "js ''body''" "(0, 0, [])" ?L Undefined Undefined ?N
      "Some \<lparr>file_name = js ''doc.md'', file_size = 4, file_text = Inr (js ''body'')\<rparr>"]
    by simp
qed

section \<open>Properties of processFile\<close>

text \<open>
  C7, as the claim states it, fails for a file whose extension is not accepted: the
  extension is checked first, so a file \<open>big.pdf\<close> of 10 MiB and one byte is rejected as
  an unsupported format, not as too large.
\<close>

theorem oversize_pdf_unsupported:
  "processFile
     \<lparr>unicode_lower = (\<lambda>s. s), yaml_load = (\<lambda>v. Inr Undefined), today = js ''02.11.2026'',
      md_render = (\<lambda>s. Inr []), mermaid_render = (\<lambda>i s. Inr [])\<rparr>
     \<lparr>file_name = js ''big.pdf'', file_size = 10485761, file_text = Inr []\<rparr> initial_state =
   (initial_state, [ShowError UnsupportedFormat]) \<and>
   ShowError UnsupportedFormat \<noteq> ShowError OversizeInput"
  by (simp add: processFile_def Let_def validExtensions_def js_simps toLowerCase_def is_ascii_def
      ascii_lower_def is_upper_def)

text \<open>
  C7, amended. A file of more than 10 MiB (\<open>10 * 1024 * 1024\<close> bytes) is rejected
  before any processing: the state is unchanged and the only event is the error
  shown, so the file is not read and neither \<open>extractMetadata\<close> nor \<open>md.render\<close> is
  called. The error is the oversize error when the extension of the name is one of
  \<open>md\<close>, \<open>markdown\<close>, \<open>txt\<close> (in any case), and the unsupported-format error
  otherwise.
\<close>

theorem oversize_rejected:
  "10 * 1024 * 1024 < file_size f \<Longrightarrow>
     processFile env f st =
       (st, [ShowError
               (if toLowerCase (unicode_lower env) (last (split_on 0x2E (file_name f)))
                     \<in> set validExtensions
                then OversizeInput else UnsupportedFormat)])"
  by (simp add: processFile_def Let_def)

theorem oversize_rejected_witness:
  "(10 * 1024 * 1024 :: nat) < 10485761 \<and>
   processFile
     \<lparr>unicode_lower = (\<lambda>s. s), yaml_load = (\<lambda>v. Inr Undefined), today = js ''02.11.2026'',
      md_render = (\<lambda>s. Inr []), mermaid_render = (\<lambda>i s. Inr [])\<rparr>
     \<lparr>file_name = js ''big.md'', file_size = 10485761, file_text = Inr []\<rparr> initial_state =
   (initial_state, [ShowError OversizeInput])"
proof -
  let ?env = "\<lparr>unicode_lower = (\<lambda>s. s), yaml_load = (\<lambda>v. Inr Undefined), today = js ''02.11.2026'',
      md_render = (\<lambda>s. Inr []), mermaid_render = (\<lambda>i s. Inr [])\<rparr>"
  let ?f = "\<lparr>file_name = js ''big.md'', file_size = 10485761, file_text = Inr []\<rparr>"
  have h: "10 * 1024 * 1024 < file_size ?f"
    by simp
  have e: "toLowerCase (unicode_lower ?env) (last (split_on 0x2E (file_name ?f))) \<in> set validExtensions"
    by (simp add: validExtensions_def js_simps toLowerCase_def is_ascii_def ascii_lower_def
        is_upper_def)
  from oversize_rejected [OF h, of ?env initial_state] e show ?thesis
    by simp
qed

section \<open>Properties of generateDOCX\<close>











text \<open>
  C9, as the claim states it, fails in its last part: the bytes are what
  \<open>Packer.toBlob\<close> writes, and the packer need not write the same bytes in two runs.
  With a packer that stamps its output with the run, a run with the theme \<open>default\<close>
  and a later run with the theme \<open>minimal\<close> give different blobs for the same state, and
  so do two runs with the same theme.
\<close>

theorem packer_bytes_differ_between_runs:
  "generateDOCX (\<lambda>v. []) (\<lambda>s. s) (\<lambda>run ps. Inr (run, ps)) (1 :: nat) (js ''default'')
       (initial_state\<lparr>metadata := \<lparr>title = Str (js ''T''), author = Str [], date = Str []\<rparr>\<rparr>) \<noteq>
     generateDOCX (\<lambda>v. []) (\<lambda>s. s) (\<lambda>run ps. Inr (run, ps)) (2 :: nat) (js ''minimal'')
       (initial_state\<lparr>metadata := \<lparr>title = Str (js ''T''), author = Str [], date = Str []\<rparr>\<rparr>) \<and>
   generateDOCX (\<lambda>v. []) (\<lambda>s. s) (\<lambda>run ps. Inr (run, ps)) (1 :: nat) (js ''default'')
       (initial_state\<lparr>metadata := \<lparr>title = Str (js ''T''), author = Str [], date = Str []\<rparr>\<rparr>) \<noteq>
     generateDOCX (\<lambda>v. []) (\<lambda>s. s) (\<lambda>run ps. Inr (run, ps)) (2 :: nat) (js ''default'')
       (initial_state\<lparr>metadata := \<lparr>title = Str (js ''T''), author = Str [], date = Str []\<rparr>\<rparr>)"
  by (simp add: generateDOCX_def Let_def docx_filename_def initial_state_def)

text \<open>
  C9, amended. The theme has no effect on the structural path: for a fixed state
  (metadata and parsed HTML), two runs of \<open>generateDOCX\<close> with any two themes hand the
  same sequence of paragraphs to the packer; within one run the whole result (blob and
  file name, or error) is the same for any two themes; and across two runs the results
  are the same whenever \<open>Packer.toBlob\<close> writes the same for the same paragraphs in
  both. Bytes differ between runs only through the packer, never through the theme.
\<close>

theorem theme_ignored:
  "fst (generateDOCX str_of lower toBlob run1 style1 st) =
     fst (generateDOCX str_of lower toBlob run2 style2 st) \<and>
   generateDOCX str_of lower toBlob run1 style1 st =
     generateDOCX str_of lower toBlob run1 style2 st \<and>
   (toBlob run1 (fst (generateDOCX str_of lower toBlob run1 style1 st)) =
      toBlob run2 (fst (generateDOCX str_of lower toBlob run2 style2 st)) \<longrightarrow>
    generateDOCX str_of lower toBlob run1 style1 st =
      generateDOCX str_of lower toBlob run2 style2 st)"
  by (simp add: generateDOCX_def Let_def)

theorem theme_ignored_witness:
  "generateDOCX (\<lambda>v. []) (\<lambda>s. s) (\<lambda>run ps. Inr ps) (1 :: nat) (js ''default'')
       (initial_state\<lparr>metadata := \<lparr>title = Str (js ''T''), author = Str [], date = Str []\<rparr>,
                       parsedHtml := sample_html\<rparr>) =
     generateDOCX (\<lambda>v. []) (\<lambda>s. s) (\<lambda>run ps. Inr ps) (2 :: nat) (js ''minimal'')
       (initial_state\<lparr>metadata := \<lparr>title = Str (js ''T''), author = Str [], date = Str []\<rparr>,
                       parsedHtml := sample_html\<rparr>)"
proof -
  let ?st = "initial_state\<lparr>metadata := \<lparr>title = Str (js ''T''), author = Str [], date = Str []\<rparr>,
                       parsedHtml := sample_html\<rparr>"
  let ?pack = "\<lambda>(run :: nat) (ps :: docx_paragraph list). (Inr ps :: exn + docx_paragraph list)"
  have h: "?pack 1 (fst (generateDOCX (\<lambda>v. []) (\<lambda>s. s) ?pack 1 (js ''default'') ?st)) =
      ?pack 2 (fst (generateDOCX (\<lambda>v. []) (\<lambda>s. s) ?pack 2 (js ''minimal'') ?st))"
    by (simp add: generateDOCX_def Let_def)
  from theme_ignored [of "\<lambda>v. []" "\<lambda>s. s" ?pack 1 "js ''default''" ?st 2 "js ''minimal''"] h
  show ?thesis by blast
qed

section \<open>Properties of processMermaidDiagrams\<close>

subsection \<open>Prefixes\<close>

lemma is_prefix_simps [simp]:
  "is_prefix [] b"
  "is_prefix a [] = (a = [])"
  "is_prefix (x # a) (y # b) = (x = y \<and> is_prefix a b)"
  by (auto simp: is_prefix_def)

lemma is_prefix_snoc: "is_prefix p (q @ [c]) \<Longrightarrow> is_prefix p q \<or> p = q @ [c]"
proof (induction p arbitrary: q)
  case Nil
  then show ?case by simp
next
  case (Cons x p)
  then show ?case by (cases q) auto
qed

lemma is_prefix_snoc_left: "is_prefix (q @ [c]) p \<Longrightarrow> is_prefix q p"
proof (induction q arbitrary: p)
  case Nil
  then show ?case by simp
next
  case (Cons x q)
  then show ?case by (cases p) auto
qed

lemma is_prefix_append [simp]: "is_prefix q (q @ r)"
  by (simp add: is_prefix_def)

lemma comparable_butlast:
  assumes "comparable p q" "q \<noteq> []"
  shows "comparable p (butlast q)"
proof -
  from assms(2) have q: "q = butlast q @ [last q]" by simp
  from assms(1) have "is_prefix p (butlast q @ [last q]) \<or> is_prefix (butlast q @ [last q]) p"
    unfolding comparable_def using q by simp
  then show ?thesis
  proof
    assume "is_prefix p (butlast q @ [last q])"
    then have "is_prefix p (butlast q) \<or> p = butlast q @ [last q]"
      by (rule is_prefix_snoc)
    then show ?thesis
      by (auto simp: comparable_def)
  next
    assume "is_prefix (butlast q @ [last q]) p"
    then have "is_prefix (butlast q) p" by (rule is_prefix_snoc_left)
    then show ?thesis by (simp add: comparable_def)
  qed
qed

subsection \<open>Paths of the selected elements\<close>

lemma map_fst_filter_cons:
  "map fst (filter (\<lambda>(p, n). sel n) (map (\<lambda>(p, n). (i # p, n)) xs)) =
     map ((#) i) (map fst (filter (\<lambda>(p, n). sel n) xs))"
  by (induction xs) auto

lemma lpaths_simps [simp]:
  "lpaths sel i [] = []"
  "lpaths sel i (k # ks) = map ((#) i) (wpaths sel k) @ lpaths sel (Suc i) ks"
  by (simp_all add: lpaths_def wpaths_def map_fst_filter_cons)

lemma wpaths_simps [simp]:
  "wpaths sel (Text t) = []"
  "wpaths sel (Elem tg cl ks) = (if sel (Elem tg cl ks) then [[]] else []) @ lpaths sel 0 ks"
  by (simp_all add: lpaths_def wpaths_def)

lemma lpaths_append:
  "lpaths sel i (xs @ ys) = lpaths sel i xs @ lpaths sel (i + length xs) ys"
  by (induction xs arbitrary: i) simp_all

lemma lpaths_range:
  "p \<in> set (lpaths sel i ks) \<Longrightarrow> \<exists>j q. p = j # q \<and> i \<le> j \<and> j < i + length ks"
proof (induction ks arbitrary: i)
  case Nil
  then show ?case by simp
next
  case (Cons k ks)
  from Cons.prems have "p \<in> (#) i ` set (wpaths sel k) \<or> p \<in> set (lpaths sel (Suc i) ks)"
    by auto
  then show ?case
  proof
    assume "p \<in> (#) i ` set (wpaths sel k)"
    then show ?thesis by auto
  next
    assume "p \<in> set (lpaths sel (Suc i) ks)"
    from Cons.IH [OF this] show ?thesis by auto
  qed
qed

lemma lpaths_split:
  assumes "i < length ks"
  shows "lpaths sel 0 ks =
    lpaths sel 0 (take i ks) @ map ((#) i) (wpaths sel (ks ! i)) @ lpaths sel (Suc i) (drop (Suc i) ks)"
proof -
  have "ks = take i ks @ ks ! i # drop (Suc i) ks"
    using assms by (rule id_take_nth_drop)
  then have "lpaths sel 0 ks = lpaths sel 0 (take i ks @ ks ! i # drop (Suc i) ks)"
    by simp
  also have "\<dots> = lpaths sel 0 (take i ks) @
      lpaths sel (0 + length (take i ks)) (ks ! i # drop (Suc i) ks)"
    by (rule lpaths_append)
  finally show ?thesis using assms by simp
qed

lemma lpaths_update:
  assumes "i < length ks"
  shows "lpaths sel 0 (ks[i := d]) =
    lpaths sel 0 (take i ks) @ map ((#) i) (wpaths sel d) @ lpaths sel (Suc i) (drop (Suc i) ks)"
proof -
  have "ks[i := d] = take i ks @ d # drop (Suc i) ks"
    using assms by (rule upd_conv_take_nth_drop)
  then have "lpaths sel 0 (ks[i := d]) = lpaths sel 0 (take i ks @ d # drop (Suc i) ks)"
    by simp
  also have "\<dots> = lpaths sel 0 (take i ks) @
      lpaths sel (0 + length (take i ks)) (d # drop (Suc i) ks)"
    by (rule lpaths_append)
  finally show ?thesis using assms by simp
qed

lemma filter_before:
  "filter (\<lambda>q. \<not> is_prefix (i # r) q) (lpaths sel 0 (take i ks)) = lpaths sel 0 (take i ks)"
proof -
  have "\<forall>q \<in> set (lpaths sel 0 (take i ks)). \<not> is_prefix (i # r) q"
  proof
    fix q assume "q \<in> set (lpaths sel 0 (take i ks))"
    from lpaths_range [OF this] obtain j q' where "q = j # q'" "j < length (take i ks)"
      by auto
    then show "\<not> is_prefix (i # r) q" by auto
  qed
  then show ?thesis by simp
qed

lemma filter_after:
  "filter (\<lambda>q. \<not> is_prefix (i # r) q) (lpaths sel (Suc i) ys) = lpaths sel (Suc i) ys"
proof -
  have "\<forall>q \<in> set (lpaths sel (Suc i) ys). \<not> is_prefix (i # r) q"
  proof
    fix q assume "q \<in> set (lpaths sel (Suc i) ys)"
    from lpaths_range [OF this] obtain j q' where "q = j # q'" "Suc i \<le> j"
      by auto
    then show "\<not> is_prefix (i # r) q" by auto
  qed
  then show ?thesis by simp
qed

lemma filter_under:
  "filter (\<lambda>q. \<not> is_prefix (i # r) q) (map ((#) i) xs) =
     map ((#) i) (filter (\<lambda>q. \<not> is_prefix r q) xs)"
  by (induction xs) auto

subsection \<open>Replacing a node\<close>

lemma replace_paths:
  assumes "shallow sel"
  shows "wpaths sel new = [] \<Longrightarrow> node_at ks r = Some old \<Longrightarrow>
    lpaths sel 0 (replace_at r new ks) = filter (\<lambda>q. \<not> is_prefix r q) (lpaths sel 0 ks)"
proof (induction r new ks rule: replace_at.induct)
  case (1 new ks)
  then show ?case by simp
next
  case (2 i new ks)
  then have i: "i < length ks" by (simp split: if_splits)
  have "filter (\<lambda>q. \<not> is_prefix [i] q) (map ((#) i) (wpaths sel (ks ! i))) = []"
    by (simp add: filter_under)
  then show ?case
    using i 2(1)
    by (simp add: lpaths_update lpaths_split [OF i] filter_before filter_after)
next
  case (3 i j p new ks)
  from 3(3) have i: "i < length ks" by (simp split: if_splits)
  from 3(3) i obtain tg cl sub where k: "ks ! i = Elem tg cl sub"
    and sub: "node_at sub (j # p) = Some old"
    by (cases "ks ! i") auto
  have ih: "lpaths sel 0 (replace_at (j # p) new sub) =
      filter (\<lambda>q. \<not> is_prefix (j # p) q) (lpaths sel 0 sub)"
    using 3(1) [OF i k 3(2) sub] .
  have s: "sel (Elem tg cl (replace_at (j # p) new sub)) = sel (Elem tg cl sub)"
    using assms(1) by (simp add: shallow_def)
  have "lpaths sel 0 (replace_at (i # j # p) new ks) =
      lpaths sel 0 (take i ks) @
      map ((#) i) (wpaths sel (Elem tg cl (replace_at (j # p) new sub))) @
      lpaths sel (Suc i) (drop (Suc i) ks)"
    using i k by (simp add: lpaths_update)
  also have "map ((#) i) (wpaths sel (Elem tg cl (replace_at (j # p) new sub))) =
      filter (\<lambda>q. \<not> is_prefix (i # j # p) q) (map ((#) i) (wpaths sel (ks ! i)))"
    using ih s k by (simp add: filter_under)
  finally show ?case
    by (simp add: lpaths_split [OF i] filter_before filter_after)
qed

lemma replace_hit:
  "node_at ks r = Some old \<Longrightarrow> node_at (replace_at r new ks) r = Some new"
proof (induction r new ks rule: replace_at.induct)
  case (1 new ks)
  then show ?case by simp
next
  case (2 i new ks)
  then show ?case by (simp split: if_splits)
next
  case (3 i j p new ks)
  from 3(2) have i: "i < length ks" by (simp split: if_splits)
  from 3(2) i obtain tg cl sub where k: "ks ! i = Elem tg cl sub"
    and sub: "node_at sub (j # p) = Some old"
    by (cases "ks ! i") auto
  from 3(1) [OF i k sub] i k show ?case by simp
qed

lemma replace_miss:
  "\<not> comparable r q \<Longrightarrow> node_at (replace_at r new ks) q = node_at ks q"
proof (induction r new ks arbitrary: q rule: replace_at.induct)
  case (1 new ks)
  then show ?case by simp
next
  case (2 i new ks)
  then obtain j q' where q: "q = j # q'" and ij: "i \<noteq> j"
    by (cases q) (auto simp: comparable_def)
  show ?case
  proof (cases q')
    case Nil
    with q ij show ?thesis by simp
  next
    case (Cons j' p')
    with q ij show ?thesis by simp
  qed
next
  case (3 i j p new ks)
  from 3(2) obtain i' q' where q: "q = i' # q'"
    by (cases q) (auto simp: comparable_def)
  show ?case
  proof (cases "i < length ks")
    case False
    then show ?thesis by simp
  next
    case True
    show ?thesis
    proof (cases "ks ! i")
      case (Text t)
      with True show ?thesis by simp
    next
      case (Elem tg cl sub)
      show ?thesis
      proof (cases "i' = i")
        case False
        with q True Elem show ?thesis by (cases q') simp_all
      next
        case same: True
        with 3(2) q obtain j' p' where q': "q' = j' # p'"
          by (cases q') (auto simp: comparable_def)
        from 3(2) q same have "\<not> comparable (j # p) q'"
          by (simp add: comparable_def)
        from 3(1) [OF True Elem this] q q' same True Elem show ?thesis
          by simp
      qed
    qed
  qed
qed

lemma node_at_parent:
  "node_at ks (r @ [c]) = Some n \<Longrightarrow> r \<noteq> [] \<Longrightarrow> \<exists>tg cl sub. node_at ks r = Some (Elem tg cl sub)"
proof (induction ks r rule: node_at.induct)
  case (1 ks)
  then show ?case by simp
next
  case (2 ks i)
  then show ?case by (cases "ks ! i") (auto split: if_splits)
next
  case (3 ks i j p)
  from 3(2) have i: "i < length ks" by (simp split: if_splits)
  from 3(2) i obtain tg cl sub where k: "ks ! i = Elem tg cl sub"
    and sub: "node_at sub ((j # p) @ [c]) = Some n"
    by (cases "ks ! i") auto
  from 3(1) [OF i k sub] i k show ?case by simp
qed

subsection \<open>The walk finds the nodes at their paths\<close>

lemma walk_list_mem:
  "(p, n) \<in> set (walk_list i ks) \<Longrightarrow>
     \<exists>j q. p = (i + j) # q \<and> j < length ks \<and> (q, n) \<in> set (walk (ks ! j))"
proof (induction ks arbitrary: i)
  case Nil
  then show ?case by simp
next
  case (Cons k ks)
  from Cons.prems have "(\<exists>q. p = i # q \<and> (q, n) \<in> set (walk k)) \<or> (p, n) \<in> set (walk_list (Suc i) ks)"
    by auto
  then show ?case
  proof
    assume "\<exists>q. p = i # q \<and> (q, n) \<in> set (walk k)"
    then obtain q where "p = (i + 0) # q" "(q, n) \<in> set (walk ((k # ks) ! 0))" by auto
    then show ?thesis by (intro exI [of _ 0] exI [of _ q]) simp
  next
    assume "(p, n) \<in> set (walk_list (Suc i) ks)"
    from Cons.IH [OF this] obtain j q where "p = (Suc i + j) # q" "j < length ks"
      "(q, n) \<in> set (walk (ks ! j))" by blast
    then show ?thesis by (intro exI [of _ "Suc j"] exI [of _ q]) simp
  qed
qed

lemma walk_node_at:
  "(p, n) \<in> set (walk d) \<Longrightarrow>
     (p = [] \<and> n = d) \<or> (\<exists>tg cl ks. d = Elem tg cl ks \<and> node_at ks p = Some n)"
proof (induction d arbitrary: p n)
  case (Text t)
  then show ?case by simp
next
  case (Elem tg cl ks)
  show ?case
  proof (cases "p = [] \<and> n = Elem tg cl ks")
    case True
    then show ?thesis by simp
  next
    case False
    with Elem.prems have "(p, n) \<in> set (walk_list 0 ks)" by auto
    from walk_list_mem [OF this] obtain j q where p: "p = j # q" and j: "j < length ks"
      and q: "(q, n) \<in> set (walk (ks ! j))" by auto
    have "ks ! j \<in> set ks" using j by simp
    from Elem.IH [OF this q] have "node_at ks (j # q) = Some n"
    proof
      assume "q = [] \<and> n = ks ! j"
      with j show ?thesis by simp
    next
      assume "\<exists>tg' cl' sub. ks ! j = Elem tg' cl' sub \<and> node_at sub q = Some n"
      then obtain tg' cl' sub where k: "ks ! j = Elem tg' cl' sub" and n: "node_at sub q = Some n"
        by blast
      from n obtain j' q' where "q = j' # q'" by (cases q) auto
      with k n j show ?thesis by simp
    qed
    with p show ?thesis by simp
  qed
qed

lemma walk_list_node_at:
  assumes "(p, n) \<in> set (walk_list 0 ks)"
  shows "node_at ks p = Some n"
proof -
  from walk_list_mem [OF assms] obtain j q where p: "p = j # q" and j: "j < length ks"
    and q: "(q, n) \<in> set (walk (ks ! j))" by auto
  from walk_node_at [OF q] have "node_at ks (j # q) = Some n"
  proof
    assume "q = [] \<and> n = ks ! j"
    with j show ?thesis by simp
  next
    assume "\<exists>tg' cl' sub. ks ! j = Elem tg' cl' sub \<and> node_at sub q = Some n"
    then obtain tg' cl' sub where k: "ks ! j = Elem tg' cl' sub" and n: "node_at sub q = Some n"
      by blast
    from n obtain j' q' where "q = j' # q'" by (cases q) auto
    with k n j show ?thesis by simp
  qed
  with p show ?thesis by simp
qed

lemma loop_outcomes:
  "mermaid_loop render i blocks st = apply_outcomes (outcomes render i blocks) st"
proof (induction blocks arbitrary: i st)
  case Nil
  then show ?case by (simp add: outcomes_def)
next
  case (Cons x blocks)
  obtain p b where x: "x = (p, b)" by (cases x)
  obtain tree gone where st: "st = (tree, gone)" by (cases st)
  show ?case
    using Cons.IH [of "Suc i"] unfolding x st
    by (simp add: outcomes_def)
qed

lemma comparable_sym: "comparable p q = comparable q p"
  by (auto simp: comparable_def)

lemma independent_nth:
  "independent ps \<Longrightarrow> i < length ps \<Longrightarrow> j < length ps \<Longrightarrow> i \<noteq> j \<Longrightarrow>
     \<not> comparable (ps ! i) (ps ! j)"
proof (induction ps arbitrary: i j)
  case Nil
  then show ?case by simp
next
  case (Cons p ps)
  show ?case
  proof (cases i)
    case 0
    with Cons.prems obtain j' where j: "j = Suc j'" "j' < length ps" by (cases j) auto
    from Cons.prems(1) have "list_all (\<lambda>q. \<not> comparable p q) ps" by simp
    with j have "\<not> comparable p (ps ! j')" by (simp add: list_all_length)
    with 0 j show ?thesis by simp
  next
    case (Suc i')
    show ?thesis
    proof (cases j)
      case 0
      from Cons.prems(1) have "list_all (\<lambda>q. \<not> comparable p q) ps" by simp
      with Suc Cons.prems(2) have "\<not> comparable p (ps ! i')" by (simp add: list_all_length)
      with 0 Suc show ?thesis by (simp add: comparable_sym)
    next
      case (Suc j')
      with \<open>i = Suc i'\<close> Cons.prems Cons.IH [of i' j'] show ?thesis by simp
    qed
  qed
qed

lemma successes_simps [simp]:
  "successes [] = []"
  "successes ((pb, Inl e) # xs) = successes xs"
  "successes ((pb, Inr svg) # xs) = butlast (fst pb) # successes xs"
  by (simp_all add: successes_def parent_of_def)

lemma successes_subset: "set (successes xs) \<subseteq> parent_of ` set xs"
  by (auto simp: successes_def)



lemma not_comparable_child:
  assumes "\<not> comparable r (butlast q)" "butlast q \<noteq> []"
  shows "\<not> comparable r q"
proof
  assume c: "comparable r q"
  from assms(2) have "q \<noteq> []" by auto
  with c have "comparable r (butlast q)" by (rule comparable_butlast)
  with assms(1) show False by simp
qed

lemma parent_valid:
  assumes "node_at tree q = Some b" "butlast q \<noteq> []"
  shows "\<exists>tg cl sub. node_at tree (butlast q) = Some (Elem tg cl sub)"
proof -
  from assms(2) have "q \<noteq> []" by auto
  then have "q = butlast q @ [last q]" by simp
  with assms(1) have "node_at tree (butlast q @ [last q]) = Some b" by simp
  from node_at_parent [OF this assms(2)] show ?thesis .
qed

lemma apply_outcomes_result:
  assumes sh: "shallow sel"
  shows "loop_inv tree gone xs \<Longrightarrow> independent (map parent_of xs) \<Longrightarrow>
    (\<forall>x \<in> set xs. \<forall>svg. snd x = Inr svg \<longrightarrow> wpaths sel (svgDiv svg) = []) \<Longrightarrow>
    lpaths sel 0 (fst (apply_outcomes xs (tree, gone))) =
      filter (\<lambda>q. \<forall>r \<in> set (successes xs). \<not> is_prefix r q) (lpaths sel 0 tree) \<and>
    (\<forall>q. (\<forall>r \<in> set (successes xs). \<not> comparable r q) \<longrightarrow>
        node_at (fst (apply_outcomes xs (tree, gone))) q = node_at tree q) \<and>
    (\<forall>x \<in> set xs. \<forall>svg. snd x = Inr svg \<longrightarrow>
        node_at (fst (apply_outcomes xs (tree, gone))) (parent_of x) = Some (svgDiv svg))"
proof (induction xs arbitrary: tree gone)
  case Nil
  then show ?case by simp
next
  case (Cons x xs)
  obtain p b out where x: "x = ((p, b), out)" by (cases x) auto
  let ?r = "butlast p"
  from Cons.prems(1) have r: "?r \<noteq> []" and nb: "node_at tree p = Some b"
    and gone: "\<forall>g \<in> set gone. \<not> comparable g ?r"
    by (simp_all add: loop_inv_def x parent_of_def)
  from Cons.prems(1) have inv_rest: "loop_inv tree gone xs"
    by (simp add: loop_inv_def)
  have px: "parent_of x = ?r"
    by (simp add: x parent_of_def)
  from Cons.prems(2) have ind_rest: "independent (map parent_of xs)"
    and ind_head: "\<forall>y \<in> set xs. \<not> comparable ?r (parent_of y)"
    by (simp_all add: px list_all_iff)
  from Cons.prems(3) have svg_rest:
    "\<forall>x \<in> set xs. \<forall>svg. snd x = Inr svg \<longrightarrow> wpaths sel (svgDiv svg) = []"
    by simp
  show ?case
  proof (cases out)
    case (Inl e)
    have step: "apply_outcomes (x # xs) (tree, gone) = apply_outcomes xs (tree, gone)"
      by (simp add: x Inl)
    from Cons.IH [OF inv_rest ind_rest svg_rest] show ?thesis
      unfolding step by (simp add: x Inl)
  next
    case (Inr svg)
    let ?new = "svgDiv svg"
    let ?tree' = "replace_at ?r ?new tree"
    from gone have "\<not> list_ex (\<lambda>g. is_prefix g ?r) gone"
      by (auto simp: list_ex_iff comparable_def)
    with r have step: "apply_outcomes (x # xs) (tree, gone) = apply_outcomes xs (?tree', ?r # gone)"
      by (simp add: x Inr)
    from parent_valid [OF nb r] obtain tg cl sub where old: "node_at tree ?r = Some (Elem tg cl sub)"
      by blast
    from Cons.prems(3) have w: "wpaths sel ?new = []"
      by (simp add: x Inr)
    have inv': "loop_inv ?tree' (?r # gone) xs"
      unfolding loop_inv_def
    proof (intro ballI conjI)
      fix y assume y: "y \<in> set xs"
      from inv_rest y show "parent_of y \<noteq> []" by (simp add: loop_inv_def)
      from ind_head y have nc: "\<not> comparable ?r (parent_of y)" by simp
      from inv_rest y have py: "parent_of y \<noteq> []"
        and ny: "node_at tree (fst (fst y)) = Some (snd (fst y))"
        by (simp_all add: loop_inv_def)
      from nc py have "\<not> comparable ?r (fst (fst y))"
        unfolding parent_of_def by (rule not_comparable_child)
      then have "node_at ?tree' (fst (fst y)) = node_at tree (fst (fst y))"
        by (rule replace_miss)
      with ny show "node_at ?tree' (fst (fst y)) = Some (snd (fst y))" by simp
      fix g assume "g \<in> set (?r # gone)"
      with nc inv_rest y show "\<not> comparable g (parent_of y)"
        by (auto simp: loop_inv_def)
    qed
    note ih = Cons.IH [OF inv' ind_rest svg_rest]
    have paths': "lpaths sel 0 ?tree' = filter (\<lambda>q. \<not> is_prefix ?r q) (lpaths sel 0 tree)"
      using sh w old by (rule replace_paths)
    have succ: "successes (x # xs) = ?r # successes xs"
      by (simp add: x Inr)
    have c1: "lpaths sel 0 (fst (apply_outcomes (x # xs) (tree, gone))) =
      filter (\<lambda>q. \<forall>r \<in> set (successes (x # xs)). \<not> is_prefix r q) (lpaths sel 0 tree)"
      unfolding step succ using ih paths'
      by (auto intro: filter_cong)
    have c2: "\<forall>q. (\<forall>r \<in> set (successes (x # xs)). \<not> comparable r q) \<longrightarrow>
        node_at (fst (apply_outcomes (x # xs) (tree, gone))) q = node_at tree q"
    proof (intro allI impI)
      fix q assume q: "\<forall>r \<in> set (successes (x # xs)). \<not> comparable r q"
      then have "\<not> comparable ?r q" and "\<forall>r \<in> set (successes xs). \<not> comparable r q"
        by (simp_all add: succ)
      with ih have "node_at (fst (apply_outcomes xs (?tree', ?r # gone))) q = node_at ?tree' q"
        by blast
      also have "\<dots> = node_at tree q"
        using \<open>\<not> comparable ?r q\<close> by (rule replace_miss)
      finally show "node_at (fst (apply_outcomes (x # xs) (tree, gone))) q = node_at tree q"
        unfolding step .
    qed
    have c3: "\<forall>y \<in> set (x # xs). \<forall>svg'. snd y = Inr svg' \<longrightarrow>
        node_at (fst (apply_outcomes (x # xs) (tree, gone))) (parent_of y) = Some (svgDiv svg')"
    proof (intro ballI allI impI)
      fix y svg' assume y: "y \<in> set (x # xs)" and s: "snd y = Inr svg'"
      show "node_at (fst (apply_outcomes (x # xs) (tree, gone))) (parent_of y) = Some (svgDiv svg')"
      proof (cases "y = x")
        case True
        then have e: "parent_of y = ?r" "svg' = svg"
          using s by (simp_all add: x Inr parent_of_def)
        have "\<forall>r \<in> set (successes xs). \<not> comparable r ?r"
          using ind_head successes_subset [of xs] by (auto simp: comparable_sym)
        with ih have "node_at (fst (apply_outcomes xs (?tree', ?r # gone))) ?r = node_at ?tree' ?r"
          by blast
        also have "\<dots> = Some ?new"
          using old by (rule replace_hit)
        finally show ?thesis unfolding step e .
      next
        case False
        with y have "y \<in> set xs" by simp
        with ih s show ?thesis unfolding step by blast
      qed
    qed
    from c1 c2 c3 show ?thesis by blast
  qed
qed

lemma shallow_sel_mermaid: "shallow sel_mermaid"
  by (simp add: shallow_def)

lemma filter_single:
  assumes "k < length ys" "P (ys ! k)" "\<forall>i < length ys. i \<noteq> k \<longrightarrow> \<not> P (ys ! i)"
  shows "filter P ys = [ys ! k]"
proof -
  have ys: "ys = take k ys @ ys ! k # drop (Suc k) ys"
    using assms(1) by (rule id_take_nth_drop)
  have "\<forall>y \<in> set (take k ys). \<not> P y"
  proof
    fix y assume "y \<in> set (take k ys)"
    then obtain i where "i < length (take k ys)" "take k ys ! i = y"
      by (auto simp: in_set_conv_nth)
    with assms(1,3) show "\<not> P y" by auto
  qed
  then have a: "filter P (take k ys) = []" by simp
  have "\<forall>y \<in> set (drop (Suc k) ys). \<not> P y"
  proof
    fix y assume "y \<in> set (drop (Suc k) ys)"
    then obtain i where i: "i < length (drop (Suc k) ys)" "drop (Suc k) ys ! i = y"
      by (auto simp: in_set_conv_nth)
    then have "ys ! (Suc k + i) = y" "Suc k + i < length ys" by auto
    with assms(3) show "\<not> P y" by auto
  qed
  then have b: "filter P (drop (Suc k) ys) = []" by simp
  have "filter P ys = filter P (take k ys @ ys ! k # drop (Suc k) ys)"
    using ys by simp
  also have "\<dots> = [ys ! k]"
    using a b assms(2) by simp
  finally show ?thesis .
qed

lemma outcomes_length [simp]: "length (outcomes render i blocks) = length blocks"
  by (simp add: outcomes_def)

lemma outcomes_nth:
  "j < length blocks \<Longrightarrow>
     outcomes render i blocks ! j = (blocks ! j, render (i + j) (textContent (snd (blocks ! j))))"
  by (simp add: outcomes_def nth_enumerate_eq split: prod.splits)

lemma lpaths_query: "lpaths sel 0 ks = map fst (querySelectorAll sel ks)"
  by (simp add: lpaths_def querySelectorAll_def)

lemma wpaths_of_query:
  assumes "querySelectorAll sel [d] = []"
  shows "wpaths sel d = []"
proof -
  have "lpaths sel 0 [d] = map fst (querySelectorAll sel [d])"
    by (rule lpaths_query)
  also have "\<dots> = []"
    using assms by (simp only: list.map)
  finally show ?thesis by simp
qed

lemma three_blocks:
  "querySelectorAll sel_mermaid three_diagrams =
     [([0, 0], Elem (js ''code'') [js ''language-mermaid''] [Text (js ''graph A'')]),
      ([2, 0], Elem (js ''code'') [js ''language-mermaid''] [Text (js ''graph B'')]),
      ([3, 0], Elem (js ''code'') [js ''language-mermaid''] [Text (js ''graph C'')])]"
  by (simp add: three_diagrams_def querySelectorAll_def js_simps)

text \<open>
  C3, as the claim states it, fails for a fragment in which two diagram code elements
  have the same parent (raw HTML passes through the grammar engine): the first
  successful rendering replaces the parent and with it the second code element. With
  two blocks in one \<open>pre\<close> and the second rendering failing, the output holds one
  container and no code block at all.
\<close>

theorem shared_parent_loses_block:
  "querySelectorAll sel_mermaid
     [Elem (js ''pre'') []
        [Elem (js ''code'') [js ''language-mermaid''] [Text (js ''graph A'')],
         Elem (js ''code'') [js ''language-mermaid''] [Text (js ''graph B'')]]] =
     [([0, 0], Elem (js ''code'') [js ''language-mermaid''] [Text (js ''graph A'')]),
      ([0, 1], Elem (js ''code'') [js ''language-mermaid''] [Text (js ''graph B'')])] \<and>
   materialize
     (\<lambda>i t. if i = 1 then Inl (Error (js ''parse error'')) else Inr [Elem (js ''svg'') [] [Text t]])
     [Elem (js ''pre'') []
        [Elem (js ''code'') [js ''language-mermaid''] [Text (js ''graph A'')],
         Elem (js ''code'') [js ''language-mermaid''] [Text (js ''graph B'')]]] =
     [svgDiv [Elem (js ''svg'') [] [Text (js ''graph A'')]]] \<and>
   querySelectorAll sel_mermaid
     (materialize
        (\<lambda>i t. if i = 1 then Inl (Error (js ''parse error'')) else Inr [Elem (js ''svg'') [] [Text t]])
        [Elem (js ''pre'') []
           [Elem (js ''code'') [js ''language-mermaid''] [Text (js ''graph A'')],
            Elem (js ''code'') [js ''language-mermaid''] [Text (js ''graph B'')]]]) = []"
  by (simp add: materialize_def querySelectorAll_def js_simps svgDiv_def is_prefix_def)

text \<open>
  C3, amended. Let the fragment hold \<open>N\<close> diagram code elements, each with a parent
  element below the root of the fragment, the parents pairwise distinct and none inside
  another (as for the \<open>pre\<close> and \<open>code\<close> pairs of fenced blocks), and let the rendered
  markup hold no diagram code elements. If the rendering of block \<open>k\<close> fails and all
  others succeed, then \<open>processMermaidDiagrams\<close> completes (the function is total: the
  rejection is caught in the loop), the parent of each of the other \<open>N - 1\<close> blocks is
  replaced by the container with its rendered markup, and the output holds exactly one
  diagram code element: the original block \<open>k\<close>, unchanged, at its original path.
\<close>

theorem materialize_one_failure:
  assumes blocks: "querySelectorAll sel_mermaid html = blocks"
    and k: "k < length blocks"
    and parents: "list_all (\<lambda>(p, b). butlast p \<noteq> []) blocks"
    and indep: "independent (map (\<lambda>(p, b). butlast p) blocks)"
    and fail: "isl (render k (textContent (snd (blocks ! k))))"
    and ok: "\<forall>i < length blocks. i \<noteq> k \<longrightarrow>
      (\<exists>svg. render i (textContent (snd (blocks ! i))) = Inr svg \<and>
             querySelectorAll sel_mermaid [svgDiv svg] = [])"
  shows "querySelectorAll sel_mermaid (materialize render html) = [blocks ! k] \<and>
    (\<forall>i < length blocks. i \<noteq> k \<longrightarrow>
      (\<exists>svg. render i (textContent (snd (blocks ! i))) = Inr svg \<and>
             node_at (materialize render html) (butlast (fst (blocks ! i))) = Some (svgDiv svg)))"
proof -
  let ?xs = "outcomes render 0 blocks"
  let ?out = "materialize render html"
  let ?N = "length blocks"
  have out: "?out = fst (apply_outcomes ?xs (html, []))"
    by (simp add: materialize_def blocks loop_outcomes)
  have nth: "\<And>i. i < ?N \<Longrightarrow> ?xs ! i = (blocks ! i, render i (textContent (snd (blocks ! i))))"
    by (simp add: outcomes_nth)
  have par: "\<And>i. i < ?N \<Longrightarrow> parent_of (?xs ! i) = butlast (fst (blocks ! i))"
    by (simp add: nth parent_of_def)
  have mem: "\<And>x. x \<in> set ?xs \<Longrightarrow> \<exists>i < ?N. x = ?xs ! i"
    by (auto simp: in_set_conv_nth)
  have parents_eq: "map parent_of ?xs = map (\<lambda>(p, b). butlast p) blocks"
    by (rule nth_equalityI) (simp_all add: par split: prod.splits)
  have ne: "\<And>i. i < ?N \<Longrightarrow> butlast (fst (blocks ! i)) \<noteq> []"
    using parents by (simp add: list_all_length case_prod_beta)
  have at: "\<And>i. i < ?N \<Longrightarrow> node_at html (fst (blocks ! i)) = Some (snd (blocks ! i))"
  proof -
    fix i assume "i < ?N"
    then have "blocks ! i \<in> set blocks" by simp
    then have "(fst (blocks ! i), snd (blocks ! i)) \<in> set (walk_list 0 html)"
      using blocks by (auto simp: querySelectorAll_def)
    then show "node_at html (fst (blocks ! i)) = Some (snd (blocks ! i))"
      by (rule walk_list_node_at)
  qed
  have inv: "loop_inv html [] ?xs"
    unfolding loop_inv_def
  proof (intro ballI conjI)
    fix x assume "x \<in> set ?xs"
    from mem [OF this] obtain i where i: "i < ?N" "x = ?xs ! i" by blast
    then show "parent_of x \<noteq> []" using par ne by simp
    from i show "node_at html (fst (fst x)) = Some (snd (fst x))" using nth at by simp
  qed simp
  have ind: "independent (map parent_of ?xs)"
    using indep parents_eq by simp
  have succ_k: "\<And>i. i < ?N \<Longrightarrow> i \<noteq> k \<Longrightarrow>
      \<exists>svg. snd (?xs ! i) = Inr svg \<and> wpaths sel_mermaid (svgDiv svg) = []"
  proof -
    fix i assume i: "i < ?N" "i \<noteq> k"
    with ok obtain svg where "render i (textContent (snd (blocks ! i))) = Inr svg"
      and "querySelectorAll sel_mermaid [svgDiv svg] = []"
      by blast
    then have "snd (?xs ! i) = Inr svg" "wpaths sel_mermaid (svgDiv svg) = []"
      using nth [OF i(1)] by (simp_all add: wpaths_of_query)
    then show "\<exists>svg. snd (?xs ! i) = Inr svg \<and> wpaths sel_mermaid (svgDiv svg) = []"
      by blast
  qed
  have fail_k: "isl (snd (?xs ! k))"
    using fail k nth by simp
  have svg: "\<forall>x \<in> set ?xs. \<forall>svg. snd x = Inr svg \<longrightarrow> wpaths sel_mermaid (svgDiv svg) = []"
  proof (intro ballI allI impI)
    fix x svg assume "x \<in> set ?xs" and s: "snd x = Inr svg"
    from mem [OF this(1)] obtain i where i: "i < ?N" "x = ?xs ! i" by blast
    with s fail_k have "i \<noteq> k" by auto
    from succ_k [OF i(1) this] i s show "wpaths sel_mermaid (svgDiv svg) = []" by simp
  qed
  note res = apply_outcomes_result [OF shallow_sel_mermaid inv ind svg, folded out]
  have succ_mem: "\<And>r. r \<in> set (successes ?xs) \<Longrightarrow> \<exists>i < ?N. i \<noteq> k \<and> r = butlast (fst (blocks ! i))"
  proof -
    fix r assume "r \<in> set (successes ?xs)"
    then obtain x where x: "x \<in> set ?xs" "\<not> isl (snd x)" "r = parent_of x"
      by (auto simp: successes_def)
    from mem [OF x(1)] obtain i where i: "i < ?N" "x = ?xs ! i" by blast
    with x fail_k have "i \<noteq> k" by auto
    with i x par show "\<exists>i < ?N. i \<noteq> k \<and> r = butlast (fst (blocks ! i))" by auto
  qed
  have succ_in: "\<And>i. i < ?N \<Longrightarrow> i \<noteq> k \<Longrightarrow> butlast (fst (blocks ! i)) \<in> set (successes ?xs)"
  proof -
    fix i assume i: "i < ?N" "i \<noteq> k"
    from succ_k [OF i] have "\<not> isl (snd (?xs ! i))" by auto
    moreover have "?xs ! i \<in> set ?xs" using i by simp
    ultimately have "parent_of (?xs ! i) \<in> set (successes ?xs)"
      by (auto simp: successes_def)
    with par i show "butlast (fst (blocks ! i)) \<in> set (successes ?xs)" by simp
  qed
  have away: "\<forall>r \<in> set (successes ?xs). \<not> comparable r (fst (blocks ! k))"
  proof
    fix r assume "r \<in> set (successes ?xs)"
    from succ_mem [OF this] obtain i where i: "i < ?N" "i \<noteq> k" "r = butlast (fst (blocks ! i))"
      by blast
    have "\<not> comparable (map (\<lambda>(p, b). butlast p) blocks ! i) (map (\<lambda>(p, b). butlast p) blocks ! k)"
      using indep i k by (intro independent_nth) simp_all
    then have "\<not> comparable r (butlast (fst (blocks ! k)))"
      using i k by (simp split: prod.splits)
    then show "\<not> comparable r (fst (blocks ! k))"
      using ne [OF k] by (rule not_comparable_child)
  qed
  have "lpaths sel_mermaid 0 ?out =
      filter (\<lambda>q. \<forall>r \<in> set (successes ?xs). \<not> is_prefix r q) (map fst blocks)"
    using res blocks by (simp add: lpaths_query)
  also have "\<dots> = [map fst blocks ! k]"
  proof (rule filter_single)
    show "k < length (map fst blocks)" using k by simp
    show "\<forall>r \<in> set (successes ?xs). \<not> is_prefix r (map fst blocks ! k)"
      using away k by (auto simp: comparable_def)
    show "\<forall>i < length (map fst blocks). i \<noteq> k \<longrightarrow>
        \<not> (\<forall>r \<in> set (successes ?xs). \<not> is_prefix r (map fst blocks ! i))"
    proof (intro allI impI)
      fix i assume i: "i < length (map fst blocks)" "i \<noteq> k"
      then have "butlast (fst (blocks ! i)) \<in> set (successes ?xs)"
        using succ_in by simp
      moreover have "is_prefix (butlast (fst (blocks ! i))) (fst (blocks ! i))"
      proof -
        from ne [of i] i have "fst (blocks ! i) \<noteq> []" by auto
        then have "fst (blocks ! i) = butlast (fst (blocks ! i)) @ [last (fst (blocks ! i))]"
          by simp
        then show ?thesis
          using is_prefix_append [of "butlast (fst (blocks ! i))" "[last (fst (blocks ! i))]"]
          by simp
      qed
      ultimately show "\<not> (\<forall>r \<in> set (successes ?xs). \<not> is_prefix r (map fst blocks ! i))"
        using i by auto
    qed
  qed
  finally have paths: "map fst (querySelectorAll sel_mermaid ?out) = [fst (blocks ! k)]"
    using k by (simp add: lpaths_query)
  then obtain n where q: "querySelectorAll sel_mermaid ?out = [(fst (blocks ! k), n)]"
    by (cases "querySelectorAll sel_mermaid ?out") auto
  then have "(fst (blocks ! k), n) \<in> set (querySelectorAll sel_mermaid ?out)"
    by simp
  then have "(fst (blocks ! k), n) \<in> set (walk_list 0 ?out)"
    by (simp add: querySelectorAll_def)
  then have "node_at ?out (fst (blocks ! k)) = Some n"
    by (rule walk_list_node_at)
  moreover have "node_at ?out (fst (blocks ! k)) = node_at html (fst (blocks ! k))"
    using res away by blast
  ultimately have "n = snd (blocks ! k)"
    using at [OF k] by simp
  with q have first: "querySelectorAll sel_mermaid ?out = [blocks ! k]"
    by simp
  have second: "\<forall>i < ?N. i \<noteq> k \<longrightarrow>
      (\<exists>svg. render i (textContent (snd (blocks ! i))) = Inr svg \<and>
             node_at ?out (butlast (fst (blocks ! i))) = Some (svgDiv svg))"
  proof (intro allI impI)
    fix i assume i: "i < ?N" "i \<noteq> k"
    from succ_k [OF i] obtain svg where s: "snd (?xs ! i) = Inr svg" by blast
    have "?xs ! i \<in> set ?xs" using i by simp
    with res s have "node_at ?out (parent_of (?xs ! i)) = Some (svgDiv svg)" by blast
    then have "node_at ?out (butlast (fst (blocks ! i))) = Some (svgDiv svg)"
      unfolding par [OF i(1)] .
    moreover from s have "render i (textContent (snd (blocks ! i))) = Inr svg"
      unfolding nth [OF i(1)] by simp
    ultimately show "\<exists>svg. render i (textContent (snd (blocks ! i))) = Inr svg \<and>
             node_at ?out (butlast (fst (blocks ! i))) = Some (svgDiv svg)"
      by blast
  qed
  from first second show ?thesis by blast
qed

theorem materialize_one_failure_witness:
  "querySelectorAll sel_mermaid (materialize second_fails three_diagrams) =
     [([2, 0], Elem (js ''code'') [js ''language-mermaid''] [Text (js ''graph B'')])] \<and>
   node_at (materialize second_fails three_diagrams) [0] =
     Some (svgDiv [Elem (js ''svg'') [] [Text (js ''graph A'')]]) \<and>
   node_at (materialize second_fails three_diagrams) [3] =
     Some (svgDiv [Elem (js ''svg'') [] [Text (js ''graph C'')]])"
proof -
  let ?blocks = "[([0, 0], Elem (js ''code'') [js ''language-mermaid''] [Text (js ''graph A'')]),
      ([2, 0], Elem (js ''code'') [js ''language-mermaid''] [Text (js ''graph B'')]),
      ([3, 0 :: nat], Elem (js ''code'') [js ''language-mermaid''] [Text (js ''graph C'')])]"
  have k: "1 < length ?blocks"
    by simp
  have parents: "list_all (\<lambda>(p, b). butlast p \<noteq> []) ?blocks"
    by simp
  have indep: "independent (map (\<lambda>(p, b). butlast p) ?blocks)"
    by (simp add: comparable_def)
  have fail: "isl (second_fails 1 (textContent (snd (?blocks ! 1))))"
    by (simp add: second_fails_def)
  have ok: "\<forall>i < length ?blocks. i \<noteq> 1 \<longrightarrow>
      (\<exists>svg. second_fails i (textContent (snd (?blocks ! i))) = Inr svg \<and>
             querySelectorAll sel_mermaid [svgDiv svg] = [])"
    by (simp add: second_fails_def querySelectorAll_def svgDiv_def js_simps All_less_Suc)
  note r = materialize_one_failure [where html = three_diagrams and blocks = ?blocks and k = 1
      and render = second_fails, OF three_blocks k parents indep fail ok]
  from r have a: "querySelectorAll sel_mermaid (materialize second_fails three_diagrams) = [?blocks ! 1]"
    by (rule conjunct1)
  from r have r2: "\<forall>i < length ?blocks. i \<noteq> 1 \<longrightarrow>
      (\<exists>svg. second_fails i (textContent (snd (?blocks ! i))) = Inr svg \<and>
             node_at (materialize second_fails three_diagrams) (butlast (fst (?blocks ! i))) =
               Some (svgDiv svg))"
    by (rule conjunct2)
  have "0 < length ?blocks" "(0 :: nat) \<noteq> 1" "2 < length ?blocks" "(2 :: nat) \<noteq> 1"
    by simp_all
  with r2 have
    "\<exists>svg. second_fails 0 (textContent (snd (?blocks ! 0))) = Inr svg \<and>
       node_at (materialize second_fails three_diagrams) (butlast (fst (?blocks ! 0))) =
         Some (svgDiv svg)"
    "\<exists>svg. second_fails 2 (textContent (snd (?blocks ! 2))) = Inr svg \<and>
       node_at (materialize second_fails three_diagrams) (butlast (fst (?blocks ! 2))) =
         Some (svgDiv svg)"
    by blast+
  then have b: "node_at (materialize second_fails three_diagrams) [0] =
     Some (svgDiv [Elem (js ''svg'') [] [Text (js ''graph A'')]])"
    and c: "node_at (materialize second_fails three_diagrams) [3] =
     Some (svgDiv [Elem (js ''svg'') [] [Text (js ''graph C'')]])"
    by (auto simp: second_fails_def simp del: node_at.simps)
  from a b c show ?thesis by simp
qed


end
